theory Spec2Isabelle
  imports Main "HOL-Library.Multiset"
begin

section \<open>Data model of the parser generator (gen.py)\<close>

text \<open>
  Errors of the generator as values. Every Python exception that gen.py can raise in the
  functions embedded below is one constructor; the formatted message text is left out.
\<close>

datatype error =
    CycleError                 \<comment> \<open>ValueError: nonterminal can produce itself\<close>
  | TrailingLookahead          \<comment> \<open>ValueError: lookahead restriction at end of production\<close>
  | LookaheadStillActive       \<comment> \<open>ValueError: lookahead restriction still active at end\<close>
  | ReduceReduceConflict       \<comment> \<open>ValueError raised by raise_reduce_reduce_conflict\<close>
  | ShiftReduceConflict        \<comment> \<open>ValueError raised by raise_shift_reduce_conflict\<close>
  | AssertionError
  | KeyError
  | IndexError
  | TypeError
  | EmptyMaxError              \<comment> \<open>ValueError: max() of an empty sequence\<close>
  | AttributeError
  | NotInListError             \<comment> \<open>ValueError: list.index(x), x not in list\<close>

text \<open>
  Members of start sets, follow sets and lookahead sets are Python values: a terminal
  (a string), the constant \<open>EMPTY = "(empty)"\<close>, or \<open>END = None\<close>.
\<close>

type_synonym token = "string option"

definition EMPTY :: token where
  "EMPTY = Some ''(empty)''"

definition END :: token where
  "END = None"

text \<open>
  Modelled from the spec: grammar.py is not part of the sources. Section 3 of the
  specification gives a nonterminal as a name (the init nonterminal \<open>InitNt(goal)\<close> of a goal
  is a name of its own) and a symbol as a tagged value: terminal, nonterminal, Optional,
  LookaheadRule (a set of terminals and a positive flag), Var, Apply. The predicates
  \<open>is_terminal\<close>, \<open>is_nt\<close>, \<open>is_optional\<close>, \<open>is_lookahead_rule\<close> test the tag.
\<close>

datatype nt_name = Name string | InitNt string

datatype element =
    T string
  | Nt nt_name
  | Optional element
  | LookaheadRule "token set" bool
  | Var string
  | Apply string "(string \<times> string) list"

fun is_terminal :: "element \<Rightarrow> bool" where
  "is_terminal (T _) = True"
| "is_terminal _ = False"

fun is_nt :: "element \<Rightarrow> bool" where
  "is_nt (Nt _) = True"
| "is_nt _ = False"

fun is_optional :: "element \<Rightarrow> bool" where
  "is_optional (Optional _) = True"
| "is_optional _ = False"

fun is_lookahead_rule :: "element \<Rightarrow> bool" where
  "is_lookahead_rule (LookaheadRule _ _) = True"
| "is_lookahead_rule _ = False"

text \<open>\<open>e.inner\<close>: an attribute of Optional only (AttributeError elsewhere, never reached).\<close>

fun inner :: "element \<Rightarrow> element" where
  "inner (Optional e) = e"
| "inner e = e"

text \<open>
  Reduction expressions. In Python they are an int, None, \<open>Some(e)\<close>,
  \<open>CallMethod(method, args)\<close> or the string \<open>'accept'\<close>; any other value makes
  \<open>adjust_reduce_expr\<close> raise TypeError, so strings are kept general.
\<close>

datatype reduce_expr =
    RInt int
  | RNone
  | RSome reduce_expr
  | CallMethod string "reduce_expr list"
  | RStr string

record production =
  nt_of :: nt_name
  body :: "element list"
  action :: reduce_expr

text \<open>
  A grammar: the ordered dictionary \<open>nonterminals\<close> (an association list, in insertion
  order) and the init nonterminals; \<open>goals()\<close> lists the goal of each init nonterminal.
\<close>

record grammar =
  nonterminals :: "(nt_name \<times> production list) list"
  init_nts :: "string list"

definition goals :: "grammar \<Rightarrow> nt_name list" where
  "goals g = map Name (init_nts g)"

definition with_nonterminals :: "grammar \<Rightarrow> (nt_name \<times> production list) list \<Rightarrow> grammar" where
  "with_nonterminals g nts = g\<lparr>nonterminals := nts\<rparr>"

text \<open>The namedtuple \<open>Prod(nt, index, rhs, removals, action)\<close>.\<close>

record Prod =
  p_nt :: nt_name
  p_index :: nat
  p_rhs :: "element list"
  p_removals :: "nat list"
  p_action :: reduce_expr

section \<open>Optional expansion\<close>

text \<open>
  The search loop of \<open>expand_optional_symbols_in_rhs\<close>:
  \<open>for i in range(start_index, len(rhs)): if is_optional(rhs[i]): break\<close>;
  None is the loop's \<open>else\<close> branch.
\<close>

function find_optional :: "element list \<Rightarrow> nat \<Rightarrow> nat option" where
  "find_optional rhs i =
     (if i < length rhs
      then (if is_optional (rhs ! i) then Some i else find_optional rhs (Suc i))
      else None)"
  by pat_completeness auto
termination
  by (relation "measure (\<lambda>(rhs, i). length rhs - i)") auto

declare find_optional.simps [simp del]

lemma find_optional_Some:
  "find_optional rhs s = Some i \<Longrightarrow>
     s \<le> i \<and> i < length rhs \<and> is_optional (rhs ! i) \<and>
     (\<forall>j. s \<le> j \<and> j < i \<longrightarrow> \<not> is_optional (rhs ! j))"
proof (induction rhs s rule: find_optional.induct)
  case (1 rhs s)
  show ?case
  proof (cases "s < length rhs \<and> \<not> is_optional (rhs ! s)")
    case True
    with "1.prems" have "find_optional rhs (Suc s) = Some i"
      by (simp add: find_optional.simps [of rhs s])
    with "1.IH" True have ih: "Suc s \<le> i \<and> i < length rhs \<and> is_optional (rhs ! i) \<and>
        (\<forall>j. Suc s \<le> j \<and> j < i \<longrightarrow> \<not> is_optional (rhs ! j))"
      by simp
    have "\<not> is_optional (rhs ! j)" if "s \<le> j \<and> j < i" for j
    proof (cases "j = s")
      case True
      with \<open>s < length rhs \<and> \<not> is_optional (rhs ! s)\<close> show ?thesis by simp
    next
      case False
      with that have "Suc s \<le> j \<and> j < i" by simp
      with ih show ?thesis by blast
    qed
    with ih show ?thesis by simp
  next
    case False
    with "1.prems" show ?thesis
      by (auto simp add: find_optional.simps [of rhs s] split: if_splits)
  qed
qed

lemma find_optional_None:
  "find_optional rhs s = None \<Longrightarrow> s \<le> j \<Longrightarrow> j < length rhs \<Longrightarrow> \<not> is_optional (rhs ! j)"
proof (induction rhs s rule: find_optional.induct)
  case (1 rhs s)
  from "1.prems" have s: "s < length rhs" by simp
  with "1.prems" have no: "\<not> is_optional (rhs ! s)" and rest: "find_optional rhs (Suc s) = None"
    by (simp_all add: find_optional.simps [of rhs s] split: if_splits)
  show ?case
  proof (cases "j = s")
    case True
    with no show ?thesis by simp
  next
    case False
    with "1.prems" have "Suc s \<le> j" by simp
    with "1.IH" s no rest "1.prems" show ?thesis by simp
  qed
qed

text \<open>The Python slice \<open>rhs[a:b]\<close> for \<open>0 \<le> a\<close>, \<open>0 \<le> b\<close>.\<close>

definition slice :: "'a list \<Rightarrow> nat \<Rightarrow> nat \<Rightarrow> 'a list" where
  "slice xs a b = take (b - a) (drop a xs)"

text \<open>
  The generator \<open>expand_optional_symbols_in_rhs(rhs, start_index)\<close>, as the list of the
  pairs it yields, in order.
\<close>

function expand_optional_symbols_in_rhs ::
  "element list \<Rightarrow> nat \<Rightarrow> (element list \<times> nat list) list" where
  "expand_optional_symbols_in_rhs rhs start_index =
     (case find_optional rhs start_index of
        None \<Rightarrow> [(drop start_index rhs, [])]
      | Some i \<Rightarrow>
          concat (map (\<lambda>(expanded, r).
                    [(slice rhs start_index i @ expanded, i # r),
                     (slice rhs start_index i @ [inner (rhs ! i)] @ expanded, r)])
                  (expand_optional_symbols_in_rhs rhs (i + 1))))"
  by pat_completeness auto
termination
proof (relation "measure (\<lambda>(rhs, s). length rhs - s)")
  show "wf (measure (\<lambda>(rhs, s). length rhs - s))" by simp
next
  fix rhs :: "element list" and start_index i :: nat
  assume "find_optional rhs start_index = Some i"
  then have "start_index \<le> i \<and> i < length rhs"
    using find_optional_Some by blast
  then show "((rhs, i + 1), (rhs, start_index)) \<in> measure (\<lambda>(rhs, s). length rhs - s)"
    by auto
qed

declare expand_optional_symbols_in_rhs.simps [simp del]

subsection \<open>Rewriting the reduction expression\<close>

text \<open>Python list indexing \<open>xs[i]\<close>: a negative index counts from the end.\<close>

definition py_index :: "'a list \<Rightarrow> int \<Rightarrow> error + 'a" where
  "py_index xs i =
     (if 0 \<le> i \<and> i < int (length xs) then Inr (xs ! nat i)
      else if i < 0 \<and> - int (length xs) \<le> i then Inr (xs ! nat (int (length xs) + i))
      else Inl IndexError)"

text \<open>
  The closure \<open>adjust_reduce_expr\<close> of \<open>expand_all_optional_elements\<close>; the variables
  it captures, \<open>p.body\<close> and \<open>removals\<close>, are its first two arguments. The list
  comprehension over \<open>expr.args\<close> is \<open>adjust_args\<close>: the first argument that raises ends it.
\<close>

fun adjust_reduce_expr :: "element list \<Rightarrow> nat list \<Rightarrow> reduce_expr \<Rightarrow> error + reduce_expr"
  and adjust_args :: "element list \<Rightarrow> nat list \<Rightarrow> reduce_expr list \<Rightarrow> error + reduce_expr list"
where
  "adjust_reduce_expr b R (RInt i) =
     (if i \<in> int ` set R then Inr RNone
      else (case py_index b i of
              Inl err \<Rightarrow> Inl err
            | Inr el \<Rightarrow>
                (let was_optional = is_optional el;
                     i' = i - int (length (filter (\<lambda>r. int r < i) R))
                 in if was_optional then Inr (RSome (RInt i')) else Inr (RInt i'))))"
| "adjust_reduce_expr b R RNone = Inr RNone"
| "adjust_reduce_expr b R (RSome e) =
     (case adjust_reduce_expr b R e of
        Inl err \<Rightarrow> Inl err
      | Inr e' \<Rightarrow> Inr (RSome e'))"
| "adjust_reduce_expr b R (CallMethod m args) =
     (case adjust_args b R args of
        Inl err \<Rightarrow> Inl err
      | Inr args' \<Rightarrow> Inr (CallMethod m args'))"
| "adjust_reduce_expr b R (RStr s) =
     (if s = ''accept'' then Inr (RStr ''accept'') else Inl TypeError)"
| "adjust_args b R [] = Inr []"
| "adjust_args b R (a # as) =
     (case adjust_reduce_expr b R a of
        Inl err \<Rightarrow> Inl err
      | Inr a' \<Rightarrow>
          (case adjust_args b R as of
             Inl err \<Rightarrow> Inl err
           | Inr as' \<Rightarrow> Inr (a' # as')))"

subsection \<open>Expanding every production\<close>

text \<open>A loop whose body may raise: the state is threaded until the first error.\<close>

fun fold_result :: "('a \<Rightarrow> 's \<Rightarrow> error + 's) \<Rightarrow> 'a list \<Rightarrow> 's \<Rightarrow> error + 's" where
  "fold_result f [] s = Inr s"
| "fold_result f (x # xs) s =
     (case f x s of Inl err \<Rightarrow> Inl err | Inr s' \<Rightarrow> fold_result f xs s')"

text \<open>Dictionary assignment \<open>d[k] = v\<close> on an insertion-ordered dictionary.\<close>

fun dict_set :: "'k \<Rightarrow> 'v \<Rightarrow> ('k \<times> 'v) list \<Rightarrow> ('k \<times> 'v) list" where
  "dict_set k v [] = [(k, v)]"
| "dict_set k v ((k', v') # d) =
     (if k' = k then (k, v) # d else (k', v') # dict_set k v d)"

text \<open>\<open>d[k].append(v)\<close> on a \<open>defaultdict(list)\<close> (and on a dictionary that has the key).\<close>

fun dict_append :: "'k \<Rightarrow> 'v \<Rightarrow> ('k \<times> 'v list) list \<Rightarrow> ('k \<times> 'v list) list" where
  "dict_append k v [] = [(k, [v])]"
| "dict_append k v ((k', vs) # d) =
     (if k' = k then (k, vs @ [v]) # d else (k', vs) # dict_append k v d)"

text \<open>The three variables that \<open>expand_all_optional_elements\<close> builds up.\<close>

record expansion =
  expanded_grammar :: "(nt_name \<times> production list) list"
  prods :: "Prod list"
  prods_with_indexes_by_nt :: "(nt_name \<times> (nat \<times> element list) list) list"

text \<open>The body of the innermost loop, for one pair \<open>(expanded_rhs, removals)\<close>.\<close>

definition expand_one ::
  "nt_name \<Rightarrow> nat \<Rightarrow> production \<Rightarrow> element list \<times> nat list \<Rightarrow> expansion \<Rightarrow> error + expansion" where
  "expand_one n prod_index p er st =
     (case er of (expanded_rhs, R) \<Rightarrow>
        (case adjust_reduce_expr (body p) R (action p) of
           Inl err \<Rightarrow> Inl err
         | Inr adjusted_action \<Rightarrow>
             Inr \<lparr>expanded_grammar =
                    dict_append n \<lparr>nt_of = nt_of p, body = expanded_rhs, action = adjusted_action\<rparr>
                      (expanded_grammar st),
                  prods = prods st @
                    [\<lparr>p_nt = n, p_index = prod_index, p_rhs = expanded_rhs, p_removals = R,
                      p_action = adjusted_action\<rparr>],
                  prods_with_indexes_by_nt =
                    dict_append n (length (prods st), expanded_rhs)
                      (prods_with_indexes_by_nt st)\<rparr>))"

text \<open>\<open>for prod_index, p in enumerate(grammar.nonterminals[nt])\<close>.\<close>

definition expand_production ::
  "nt_name \<Rightarrow> nat \<times> production \<Rightarrow> expansion \<Rightarrow> error + expansion" where
  "expand_production n ip st =
     (case ip of (prod_index, p) \<Rightarrow>
        fold_result (expand_one n prod_index p) (expand_optional_symbols_in_rhs (body p) 0) st)"

text \<open>\<open>for nt in grammar.nonterminals\<close>: one key of the dictionary with its value.\<close>

definition expand_nt ::
  "nt_name \<times> production list \<Rightarrow> expansion \<Rightarrow> error + expansion" where
  "expand_nt np st =
     (case np of (n, plist) \<Rightarrow>
        fold_result (expand_production n) (enumerate 0 plist)
          (st\<lparr>expanded_grammar := dict_set n [] (expanded_grammar st)\<rparr>))"

definition expand_all_optional_elements ::
  "grammar \<Rightarrow> error + (grammar \<times> Prod list \<times> (nt_name \<times> (nat \<times> element list) list) list)" where
  "expand_all_optional_elements g =
     (case fold_result expand_nt (nonterminals g)
             \<lparr>expanded_grammar = [], prods = [], prods_with_indexes_by_nt = []\<rparr> of
        Inl err \<Rightarrow> Inl err
      | Inr st \<Rightarrow>
          Inr (with_nonterminals g (expanded_grammar st), prods st, prods_with_indexes_by_nt st))"

section \<open>Epsilon elimination\<close>

text \<open>
  \<open>make_epsilon_free_step_2\<close>: the dictionary comprehension keeps every key and filters
  its list of productions.
\<close>

definition make_epsilon_free_step_2 :: "grammar \<Rightarrow> grammar" where
  "make_epsilon_free_step_2 g =
     (let goal_nts = set (goals g)
      in with_nonterminals g
           (map (\<lambda>(n, plist). (n, filter (\<lambda>p. length (body p) > 0 \<or> n \<in> goal_nts) plist))
              (nonterminals g)))"

section \<open>LR items and states\<close>

text \<open>
  The namedtuple \<open>LRItem(prod_index, offset, lookahead, followed_by)\<close>. \<open>lookahead\<close> is
  None or a LookaheadRule, given by its set and its positive flag; \<open>followed_by\<close> is an
  OrderedFrozenSet of terminals, in which None stands for END.

  Modelled from the spec: ordered.py is not part of the sources. Section 4.B of the
  specification gives an ordered set the semantics of a mathematical set, with equality
  that ignores the order; a set of terminals is a HOL set. Where the iteration order of a
  set decides the result (the items of a state, the closure, the dictionaries of
  \<open>State.analyze\<close>), the set is a list without repetitions, in insertion order.
\<close>

type_synonym lookahead_rule = "token set \<times> bool"

record LRItem =
  prod_index :: nat
  offset :: nat
  lookahead :: "lookahead_rule option"
  followed_by :: "token set"

type_synonym item_triple = "nat \<times> nat \<times> lookahead_rule option"

text \<open>\<open>item_key\<close> of \<open>State.update\<close>; \<open>State.__init__\<close> uses the same triple.\<close>

definition item_key :: "LRItem \<Rightarrow> item_triple" where
  "item_key item = (prod_index item, offset item, lookahead item)"

text \<open>\<open>OrderedSet.add\<close> and the construction of an ordered set from a sequence.\<close>

definition os_add :: "'a \<Rightarrow> 'a list \<Rightarrow> 'a list" where
  "os_add x xs = (if x \<in> set xs then xs else xs @ [x])"

definition ordered_set :: "'a list \<Rightarrow> 'a list" where
  "ordered_set xs = foldl (\<lambda>acc x. os_add x acc) [] xs"

text \<open>
  What the generator takes from a module that is not part of the sources: the constant
  \<open>ACCEPT\<close> of pgen_runtime.
\<close>

record externals =
  ACCEPT :: int

text \<open>
  Modelled from the spec: \<open>State.__init__\<close> joins into \<open>self.key\<close> the \<open>repr\<close> of the
  triples of \<open>sorted(self._lr_items)\<close>; the order and the \<open>repr\<close> of a LookaheadRule and of
  an OrderedFrozenSet belong to grammar.py and ordered.py, which are not part of the sources.
  Section 4.I of the specification makes the merge key ``the stringified, sorted listing of
  (prod-index, offset, lookahead) triples over the items''. A sorted listing has the same
  entries whatever the order the items came in, so the key is the multiset of the triples;
  the text of a triple is taken to stand for the triple.
\<close>

definition state_key :: "LRItem list \<Rightarrow> item_triple multiset" where
  "state_key items = mset (map item_key items)"

text \<open>
  The immutable \<open>PgenContext\<close>. \<open>follow\<close> is a \<open>defaultdict(OrderedSet)\<close>: a key that
  was never set has the empty set.
\<close>

record PgenContext =
  ctx_grammar :: grammar
  ctx_prods :: "Prod list"
  ctx_prods_with_indexes_by_nt :: "(nt_name \<times> (nat \<times> element list) list) list"
  ctx_start_set_cache :: "token set list list"
  ctx_follow :: "nt_name \<Rightarrow> token set"

text \<open>Indexing a list with a nonnegative index: \<open>xs[i]\<close> raises IndexError out of range.\<close>

definition nth_result :: "'a list \<Rightarrow> nat \<Rightarrow> error + 'a" where
  "nth_result xs i = (if i < length xs then Inr (xs ! i) else Inl IndexError)"

text \<open>A list comprehension whose element expression may raise.\<close>

fun map_result :: "('a \<Rightarrow> error + 'b) \<Rightarrow> 'a list \<Rightarrow> error + 'b list" where
  "map_result f [] = Inr []"
| "map_result f (x # xs) =
     (case f x of
        Inl err \<Rightarrow> Inl err
      | Inr y \<Rightarrow> (case map_result f xs of Inl err \<Rightarrow> Inl err | Inr ys \<Rightarrow> Inr (y # ys)))"

subsection \<open>Compatibility of the items of a state\<close>

text \<open>\<open>item_history\<close> of \<open>assert_items_are_compatible\<close>.\<close>

definition item_history :: "Prod list \<Rightarrow> LRItem \<Rightarrow> error + element list" where
  "item_history ps item =
     (case nth_result ps (prod_index item) of
        Inl err \<Rightarrow> Inl err
      | Inr p \<Rightarrow> Inr (filter (\<lambda>e. \<not> is_lookahead_rule e) (take (offset item) (p_rhs p))))"

text \<open>
  \<open>max(pairs, key=lambda pair: len(pair[1]))\<close>: the first pair of greatest length, and
  ValueError on an empty list.
\<close>

fun max_by_len :: "('a \<times> 'b list) list \<Rightarrow> error + ('a \<times> 'b list)" where
  "max_by_len [] = Inl EmptyMaxError"
| "max_by_len (x # xs) =
     Inr (foldl (\<lambda>best y. if length (snd best) < length (snd y) then y else best) x xs)"

text \<open>The Python slice \<open>xs[-k:]\<close> for \<open>k \<ge> 0\<close>; \<open>xs[-0:]\<close> is the whole list.\<close>

definition last_slice :: "'a list \<Rightarrow> nat \<Rightarrow> 'a list" where
  "last_slice xs k = (if k = 0 then xs else drop (length xs - k) xs)"

definition assert_items_are_compatible :: "Prod list \<Rightarrow> LRItem list \<Rightarrow> error + unit" where
  "assert_items_are_compatible ps items =
     (case map_result (\<lambda>item. case item_history ps item of
                                 Inl err \<Rightarrow> Inl err
                               | Inr h \<Rightarrow> Inr (item, h)) items of
        Inl err \<Rightarrow> Inl err
      | Inr pairs \<Rightarrow>
          (case max_by_len pairs of
             Inl err \<Rightarrow> Inl err
           | Inr (max_item, known_history) \<Rightarrow>
               (if list_all (\<lambda>(item, history).
                      take (offset item) history = last_slice known_history (offset item)) pairs
                then Inr ()
                else Inl AssertionError)))"

subsection \<open>The class State\<close>

text \<open>
  The slots of a State. \<open>context\<close> is passed as an argument where it is used;
  \<open>_debug_traceback\<close> only feeds the text of error messages and \<open>_hash\<close> is the hash of
  \<open>key\<close>; both are left out. The rows and the id (\<open>state_id\<close>) are set after
  construction.
\<close>

record State =
  lr_items :: "LRItem list"
  key :: "item_triple multiset"
  action_row :: "token \<rightharpoonup> int"
  ctn_row :: "(nt_name \<times> nat) list"
  state_id :: "nat option"

text \<open>\<open>a[k] |= v\<close> on a \<open>defaultdict(OrderedSet)\<close>, the keys in insertion order.\<close>

fun dict_union :: "'k \<Rightarrow> 'v set \<Rightarrow> ('k \<times> 'v set) list \<Rightarrow> ('k \<times> 'v set) list" where
  "dict_union k v [] = [(k, v)]"
| "dict_union k v ((k', v') # d) =
     (if k' = k then (k, v' \<union> v) # d else (k', v') # dict_union k v d)"

text \<open>The loop of \<open>State.__init__\<close> that consolidates similar items.\<close>

definition consolidate :: "LRItem list \<Rightarrow> (item_triple \<times> token set) list" where
  "consolidate items = foldl (\<lambda>a item. dict_union (item_key item) (followed_by item) a) [] items"

text \<open>\<open>LRItem(*k, OrderedFrozenSet(v))\<close> for an entry \<open>k, v\<close> of that dictionary.\<close>

definition item_of :: "item_triple \<times> token set \<Rightarrow> LRItem" where
  "item_of kv =
     (case kv of (k, v) \<Rightarrow> case k of (pi, off, la) \<Rightarrow>
        \<lparr>prod_index = pi, offset = off, lookahead = la, followed_by = v\<rparr>)"

definition State_init :: "PgenContext \<Rightarrow> LRItem list \<Rightarrow> error + State" where
  "State_init context items =
     (let its = ordered_set (map item_of (consolidate items))
      in case assert_items_are_compatible (ctx_prods context) its of
           Inl err \<Rightarrow> Inl err
         | Inr _ \<Rightarrow>
             Inr \<lparr>lr_items = its, key = state_key its, action_row = Map.empty,
                  ctn_row = [], state_id = None\<rparr>)"

text \<open>
  \<open>State.update\<close>. The dictionary \<open>new_followed_by\<close> is built from the items of
  \<open>new_state\<close>, a later item replacing an earlier one of the same key; a lookup of a
  missing key raises KeyError.
\<close>

definition new_followed_by :: "State \<Rightarrow> item_triple \<rightharpoonup> token set" where
  "new_followed_by new_state =
     foldl (\<lambda>d item. d(item_key item \<mapsto> followed_by item)) Map.empty (lr_items new_state)"

text \<open>
  \<open>any(new_followed_by[item_key(item)] - item.followed_by for item in self._lr_items)\<close>:
  the generator is consumed up to the first nonempty difference.
\<close>

fun any_new :: "(item_triple \<rightharpoonup> token set) \<Rightarrow> LRItem list \<Rightarrow> error + bool" where
  "any_new d [] = Inr False"
| "any_new d (item # items) =
     (case d (item_key item) of
        None \<Rightarrow> Inl KeyError
      | Some fb \<Rightarrow> (if fb - followed_by item \<noteq> {} then Inr True else any_new d items))"

definition update :: "State \<Rightarrow> State \<Rightarrow> error + (bool \<times> State)" where
  "update self new_state =
     (if key new_state \<noteq> key self then Inl AssertionError
      else if length (lr_items self) \<noteq> length (lr_items new_state) then Inl AssertionError
      else (case any_new (new_followed_by new_state) (lr_items self) of
              Inl err \<Rightarrow> Inl err
            | Inr False \<Rightarrow> Inr (False, self)
            | Inr True \<Rightarrow>
                (case map_result
                        (\<lambda>item. case new_followed_by new_state (item_key item) of
                                   None \<Rightarrow> Inl KeyError
                                 | Some fb \<Rightarrow> Inr (item\<lparr>followed_by := followed_by item \<union> fb\<rparr>))
                        (lr_items self) of
                   Inl err \<Rightarrow> Inl err
                 | Inr merged \<Rightarrow> Inr (True, self\<lparr>lr_items := ordered_set merged\<rparr>))))"

section \<open>Start sets\<close>

text \<open>
  The dictionary \<open>start\<close> maps each nonterminal to its start set; \<open>start[e]\<close> raises
  KeyError for a nonterminal that is not a key.

  \<open>seq_start(grammar, start, seq)\<close>: \<open>seq_start_loop\<close> is the \<open>for\<close> loop, entered with the
  current value of \<open>s\<close> and the elements still to visit. A terminal \<open>e\<close> is added to \<open>s\<close> as the
  Python value it is; the recursive call on \<open>seq[i + 1:]\<close> starts again from \<open>{EMPTY}\<close>.
\<close>

fun seq_start_loop :: "grammar \<Rightarrow> (nt_name \<rightharpoonup> token set) \<Rightarrow> token set \<Rightarrow> element list
    \<Rightarrow> error + token set" where
  "seq_start_loop g start s [] = Inr s"
| "seq_start_loop g start s (e # rest) =
     (if EMPTY \<notin> s then Inr s
      else (case e of
              T t \<Rightarrow> seq_start_loop g start (insert (Some t) (s - {EMPTY})) rest
            | Nt n \<Rightarrow>
                (case start n of
                   None \<Rightarrow> Inl KeyError
                 | Some fs \<Rightarrow> seq_start_loop g start ((s - {EMPTY}) \<union> fs) rest)
            | LookaheadRule la_set positive \<Rightarrow>
                (case seq_start_loop g start {EMPTY} rest of
                   Inl err \<Rightarrow> Inl err
                 | Inr future \<Rightarrow>
                     Inr (if positive then future \<inter> la_set else future - la_set))
            | _ \<Rightarrow> Inl AssertionError))"

definition seq_start :: "grammar \<Rightarrow> (nt_name \<rightharpoonup> token set) \<Rightarrow> element list \<Rightarrow> error + token set" where
  "seq_start g start seq = seq_start_loop g start {EMPTY} seq"

text \<open>
  \<open>start_sets\<close>. One pass of the \<open>for\<close> loop over \<open>grammar.nonterminals.items()\<close> updates
  \<open>start\<close> in place and clears \<open>done\<close> when a set changed.
\<close>

definition start_sets_nt ::
  "grammar \<Rightarrow> nt_name \<times> production list \<Rightarrow> (nt_name \<rightharpoonup> token set) \<times> bool
     \<Rightarrow> error + ((nt_name \<rightharpoonup> token set) \<times> bool)" where
  "start_sets_nt g np sd =
     (case np of (n, plist) \<Rightarrow> case sd of (start, done) \<Rightarrow>
        (case map_result (\<lambda>p. seq_start g start (body p)) plist of
           Inl err \<Rightarrow> Inl err
         | Inr sets \<Rightarrow>
             (let nt_start = \<Union> (set sets)
              in case start n of
                   None \<Rightarrow> Inl KeyError
                 | Some old \<Rightarrow>
                     if nt_start \<noteq> old then Inr (start(n \<mapsto> nt_start), False)
                     else Inr (start, done))))"

text \<open>
  The \<open>while not done\<close> loop: it may run forever, so the result is an option, None when the
  loop does not end.
\<close>

partial_function (option) start_sets_loop ::
  "grammar \<Rightarrow> (nt_name \<rightharpoonup> token set) \<Rightarrow> (error + (nt_name \<rightharpoonup> token set)) option" where
  "start_sets_loop g start =
     (case fold_result (start_sets_nt g) (nonterminals g) (start, True) of
        Inl err \<Rightarrow> Some (Inl err)
      | Inr (start', done) \<Rightarrow>
          if done then Some (Inr start') else start_sets_loop g start')"

declare start_sets_loop.simps [code]

definition start_sets :: "grammar \<Rightarrow> (error + (nt_name \<rightharpoonup> token set)) option" where
  "start_sets g = start_sets_loop g (map_of (map (\<lambda>(n, plist). (n, {})) (nonterminals g)))"

subsection \<open>The cache of start sets of suffixes\<close>

text \<open>
  \<open>suffix_start_list(rhs)\<close> of \<open>make_start_set_cache\<close>. The loop body, for one element of
  \<open>reversed(rhs)\<close>, ends with the first \<open>assert\<close> of the source; \<open>sets[-1]\<close> is the last
  entry of the list, which is never empty.
\<close>

definition suffix_start_step ::
  "grammar \<Rightarrow> (nt_name \<rightharpoonup> token set) \<Rightarrow> element list \<Rightarrow> element \<Rightarrow> token set list
     \<Rightarrow> error + token set list" where
  "suffix_start_step g start rhs e sets =
     (case (case e of
              T t \<Rightarrow> Inr {Some t}
            | Nt n \<Rightarrow>
                (case start n of
                   None \<Rightarrow> Inl KeyError
                 | Some s \<Rightarrow> Inr (if EMPTY \<in> s then (s - {EMPTY}) \<union> last sets else s))
            | LookaheadRule la_set positive \<Rightarrow>
                Inr (if positive then last sets \<inter> la_set else last sets - la_set)
            | _ \<Rightarrow> Inl AssertionError) of
        Inl err \<Rightarrow> Inl err
      | Inr s \<Rightarrow>
          (case seq_start g start (drop (length rhs - length sets) rhs) of
             Inl err \<Rightarrow> Inl err
           | Inr expected \<Rightarrow>
               if s = expected then Inr (sets @ [s]) else Inl AssertionError))"

definition suffix_start_list ::
  "grammar \<Rightarrow> (nt_name \<rightharpoonup> token set) \<Rightarrow> element list \<Rightarrow> error + token set list" where
  "suffix_start_list g start rhs =
     (case fold_result (suffix_start_step g start rhs) (rev rhs) [{EMPTY}] of
        Inl err \<Rightarrow> Inl err
      | Inr sets \<Rightarrow>
          (case map_result (\<lambda>i. seq_start g start (drop i rhs)) [0..<length rhs + 1] of
             Inl err \<Rightarrow> Inl err
           | Inr expected \<Rightarrow>
               if rev sets = expected then Inr (rev sets) else Inl AssertionError))"

definition make_start_set_cache ::
  "grammar \<Rightarrow> Prod list \<Rightarrow> (nt_name \<rightharpoonup> token set) \<Rightarrow> error + token set list list" where
  "make_start_set_cache g ps start = map_result (\<lambda>p. suffix_start_list g start (p_rhs p)) ps"

section \<open>Operations on grammars\<close>

text \<open>
  \<open>fix(f, start)\<close>, here \<open>fix_point\<close>: the loop may run forever, so the result is an option, None when it
  does not end. The function iterated may raise; the first error ends the loop.
\<close>

partial_function (option) fix_loop ::
  "('a \<Rightarrow> error + 'a) \<Rightarrow> 'a \<Rightarrow> 'a \<Rightarrow> (error + 'a) option" where
  "fix_loop f prev current =
     (if current \<noteq> prev
      then (case f current of
              Inl err \<Rightarrow> Some (Inl err)
            | Inr next \<Rightarrow> fix_loop f current next)
      else Some (Inr current))"

declare fix_loop.simps [code]

definition fix_point :: "('a \<Rightarrow> error + 'a) \<Rightarrow> 'a \<Rightarrow> (error + 'a) option" where
  "fix_point f start =
     (case f start of
        Inl err \<Rightarrow> Some (Inl err)
      | Inr current \<Rightarrow> fix_loop f start current)"

text \<open>\<open>empty_nt_set\<close>: \<open>production_is_empty\<close> and \<open>step\<close> are its two inner functions.\<close>

definition production_is_empty :: "nt_name set \<Rightarrow> production \<Rightarrow> bool" where
  "production_is_empty empties p =
     list_all (\<lambda>e. is_lookahead_rule e \<or> is_optional e \<or>
                    (case e of Nt n \<Rightarrow> n \<in> empties | _ \<Rightarrow> False)) (body p)"

definition empty_step :: "grammar \<Rightarrow> nt_name set \<Rightarrow> nt_name set" where
  "empty_step g empties =
     set (map fst (filter (\<lambda>(n, plist). list_ex (production_is_empty empties) plist)
                     (nonterminals g)))"

definition empty_nt_set :: "grammar \<Rightarrow> (error + nt_name set) option" where
  "empty_nt_set g = fix_point (\<lambda>empties. Inr (empty_step g empties)) {}"

text \<open>
  \<open>check_cycle_free\<close>. \<open>scan_rhs\<close> is the loop \<open>for e in rhs\<close> with its two variables;
  the result None is a \<open>break\<close>, and \<open>Some result\<close> is the \<open>else\<close> branch of the loop.
\<close>

fun scan_rhs :: "nt_name set \<Rightarrow> nt_name list \<Rightarrow> bool \<Rightarrow> element list
    \<Rightarrow> error + nt_name list option" where
  "scan_rhs empties result all_possibly_empty_so_far [] = Inr (Some result)"
| "scan_rhs empties result all_possibly_empty_so_far (e # rest) =
     (case e of
        T t \<Rightarrow> Inr None
      | Nt n \<Rightarrow>
          (if n \<in> empties
           then (if all_possibly_empty_so_far
                 then scan_rhs empties (result @ [n]) all_possibly_empty_so_far rest
                 else scan_rhs empties result all_possibly_empty_so_far rest)
           else (if \<not> all_possibly_empty_so_far then Inr None
                 else scan_rhs empties [n] False rest))
      | Optional x \<Rightarrow>
          (case x of
             Nt n \<Rightarrow> scan_rhs empties (result @ [n]) all_possibly_empty_so_far rest
           | _ \<Rightarrow> scan_rhs empties result all_possibly_empty_so_far rest)
      | LookaheadRule la_set positive \<Rightarrow>
          scan_rhs empties result all_possibly_empty_so_far rest
      | _ \<Rightarrow> Inl AssertionError)"

text \<open>The three nested loops that fill \<open>direct_produces[orig]\<close>, for one key \<open>orig\<close>.\<close>

definition direct_produces_of ::
  "nt_name set \<Rightarrow> production list \<Rightarrow> error + nt_name set" where
  "direct_produces_of empties plist =
     fold_result
       (\<lambda>rhs acc. case scan_rhs empties [] True rhs of
                     Inl err \<Rightarrow> Inl err
                   | Inr None \<Rightarrow> Inr acc
                   | Inr (Some result) \<Rightarrow> Inr (acc \<union> set result))
       (concat (map (\<lambda>p. map fst (expand_optional_symbols_in_rhs (body p) 0)) plist))
       {}"

text \<open>\<open>step\<close> of \<open>check_cycle_free\<close>; \<open>produces[a]\<close> raises KeyError for a missing key.\<close>

definition produces_step ::
  "(nt_name \<times> nt_name set) list \<Rightarrow> error + (nt_name \<times> nt_name set) list" where
  "produces_step produces =
     map_result
       (\<lambda>(orig, dest).
          if dest \<subseteq> fst ` set produces
          then Inr (orig, dest \<union> (\<Union>a \<in> dest. the (map_of produces a)))
          else Inl KeyError)
       produces"

definition check_cycle_free :: "grammar \<Rightarrow> (error + unit) option" where
  "check_cycle_free g =
     (case empty_nt_set g of
        None \<Rightarrow> None
      | Some (Inl err) \<Rightarrow> Some (Inl err)
      | Some (Inr empties) \<Rightarrow>
          (case map_result
                  (\<lambda>(orig, plist). case direct_produces_of empties plist of
                                      Inl err \<Rightarrow> Inl err
                                    | Inr dest \<Rightarrow> Inr (orig, dest))
                  (nonterminals g) of
             Inl err \<Rightarrow> Some (Inl err)
           | Inr direct_produces \<Rightarrow>
               (case fix_point produces_step direct_produces of
                  None \<Rightarrow> None
                | Some (Inl err) \<Rightarrow> Some (Inl err)
                | Some (Inr produces) \<Rightarrow>
                    Some (fold_result
                            (\<lambda>n u. case map_of produces n of
                                      None \<Rightarrow> Inl KeyError
                                    | Some dest \<Rightarrow> if n \<in> dest then Inl CycleError else Inr u)
                            (map fst (nonterminals g)) ()))))"

text \<open>\<open>check_lookahead_rules\<close>; \<open>rhs and is_lookahead_rule(rhs[-1])\<close> is its only test.\<close>

definition check_lookahead_rules :: "grammar \<Rightarrow> (error + unit) option" where
  "check_lookahead_rules g =
     (case check_cycle_free g of
        None \<Rightarrow> None
      | Some (Inl err) \<Rightarrow> Some (Inl err)
      | Some (Inr _) \<Rightarrow>
          Some (fold_result
                  (\<lambda>rhs u. if rhs \<noteq> [] \<and> is_lookahead_rule (last rhs)
                             then Inl TrailingLookahead else Inr u)
                  (concat (map (\<lambda>(n, plist).
                             concat (map (\<lambda>p. map fst (expand_optional_symbols_in_rhs (body p) 0))
                                       plist))
                          (nonterminals g)))
                  ()))"

text \<open>\<open>make_epsilon_free_step_1\<close> with its inner function \<open>hack\<close>.\<close>

definition hack :: "nt_name set \<Rightarrow> element \<Rightarrow> element" where
  "hack empties e = (case e of Nt n \<Rightarrow> if n \<in> empties then Optional e else e | _ \<Rightarrow> e)"

definition make_epsilon_free_step_1 :: "grammar \<Rightarrow> (error + grammar) option" where
  "make_epsilon_free_step_1 g =
     (case empty_nt_set g of
        None \<Rightarrow> None
      | Some (Inl err) \<Rightarrow> Some (Inl err)
      | Some (Inr empties) \<Rightarrow>
          Some (Inr (with_nonterminals g
                  (map (\<lambda>(n, plist). (n, map (\<lambda>p. p\<lparr>body := map (hack empties) (body p)\<rparr>) plist))
                     (nonterminals g)))))"

section \<open>The lowering pipeline\<close>

text \<open>
  The steps of \<open>generate_parser\<close> that check and lower the grammar, in their order, from
  \<open>check_cycle_free\<close> on. (\<open>expand_function_nonterminals\<close> comes before them; on a
  grammar without parameterized nonterminals, whose nonterminals are all reachable from
  the goals, it returns the grammar it was given.)
\<close>

definition lower_grammar ::
  "grammar \<Rightarrow> (error + (grammar \<times> Prod list \<times> (nt_name \<times> (nat \<times> element list) list) list)) option"
  where
  "lower_grammar g =
     (case check_cycle_free g of
        None \<Rightarrow> None
      | Some (Inl err) \<Rightarrow> Some (Inl err)
      | Some (Inr _) \<Rightarrow>
          (case check_lookahead_rules g of
             None \<Rightarrow> None
           | Some (Inl err) \<Rightarrow> Some (Inl err)
           | Some (Inr _) \<Rightarrow>
               (case make_epsilon_free_step_1 g of
                  None \<Rightarrow> None
                | Some (Inl err) \<Rightarrow> Some (Inl err)
                | Some (Inr g1) \<Rightarrow>
                    (case expand_all_optional_elements g1 of
                       Inl err \<Rightarrow> Some (Inl err)
                     | Inr (g2, ps, by_nt) \<Rightarrow>
                         Some (Inr (make_epsilon_free_step_2 g2, ps, by_nt))))))"

text \<open>
  \<open>generate_parser\<close> from the lowering to
  \<open>start_set_cache = make_start_set_cache(grammar, prods, start)\<close>: the lowered grammar and
  its flat productions, then \<open>start_sets\<close>, then the cache. An exception of any step ends
  the run.
\<close>

definition generate_parser_cache :: "grammar \<Rightarrow> (error + token set list list) option" where
  "generate_parser_cache g =
     (case lower_grammar g of
        None \<Rightarrow> None
      | Some (Inl err) \<Rightarrow> Some (Inl err)
      | Some (Inr (g', ps, by_nt)) \<Rightarrow>
          (case start_sets g' of
             None \<Rightarrow> None
           | Some (Inl err) \<Rightarrow> Some (Inl err)
           | Some (Inr start) \<Rightarrow> Some (make_start_set_cache g' ps start)))"

section \<open>Items of a state: construction, closure, analysis\<close>

text \<open>
  Modelled from the spec: \<open>lookahead_contains\<close> and \<open>lookahead_intersect\<close> are functions
  of grammar.py, which is not part of the sources. Section 4.I of the specification has
  item construction intersect each rule it passes into the item's \<open>lookahead\<close>, and section
  4.J shifts a terminal when the \<open>lookahead\<close> admits it; a positive rule admits the members
  of its set, a negative rule the other terminals, and no rule admits every terminal.
\<close>

definition lookahead_contains :: "lookahead_rule option \<Rightarrow> token \<Rightarrow> bool" where
  "lookahead_contains rule t =
     (case rule of
        None \<Rightarrow> True
      | Some (la_set, positive) \<Rightarrow> if positive then t \<in> la_set else t \<notin> la_set)"

definition lookahead_intersect ::
  "lookahead_rule option \<Rightarrow> lookahead_rule option \<Rightarrow> lookahead_rule option" where
  "lookahead_intersect a b =
     (case a of
        None \<Rightarrow> b
      | Some (sa, pa) \<Rightarrow>
          (case b of
             None \<Rightarrow> a
           | Some (sb, pb) \<Rightarrow>
               if pa then (if pb then Some (sa \<inter> sb, True) else Some (sa - sb, True))
               else (if pb then Some (sb - sa, True) else Some (sa \<union> sb, False))))"

text \<open>A LookaheadRule element as the rule it carries.\<close>

fun rule_of :: "element \<Rightarrow> lookahead_rule option" where
  "rule_of (LookaheadRule la_set positive) = Some (la_set, positive)"
| "rule_of e = None"

text \<open>
  \<open>PgenContext.make_lr_item\<close>. \<open>skip_lookahead\<close> is its \<open>while\<close> loop; the block after
  the loop is disabled in the source (\<open>if False\<close>), so the result is never None.
\<close>

function skip_lookahead :: "element list \<Rightarrow> LRItem \<Rightarrow> LRItem" where
  "skip_lookahead r item =
     (if offset item < length r \<and> is_lookahead_rule (r ! offset item)
      then skip_lookahead r
             (item\<lparr>offset := offset item + 1,
                   lookahead := lookahead_intersect (lookahead item) (rule_of (r ! offset item))\<rparr>)
      else item)"
  by pat_completeness auto
termination
  by (relation "measure (\<lambda>(r, item). length r - offset item)") auto

declare skip_lookahead.simps [simp del]

definition make_lr_item ::
  "PgenContext \<Rightarrow> nat \<Rightarrow> nat \<Rightarrow> lookahead_rule option \<Rightarrow> token set \<Rightarrow> error + LRItem" where
  "make_lr_item context pi off la fb =
     (case nth_result (ctx_prods context) pi of
        Inl err \<Rightarrow> Inl err
      | Inr p \<Rightarrow>
          Inr (skip_lookahead (p_rhs p)
                 \<lparr>prod_index = pi, offset = off, lookahead = la, followed_by = fb\<rparr>))"

text \<open>\<open>specific_follow\<close>.\<close>

definition specific_follow ::
  "token set list list \<Rightarrow> nat \<Rightarrow> nat \<Rightarrow> token set \<Rightarrow> error + token set" where
  "specific_follow start_set_cache prod_id off fb =
     (case nth_result start_set_cache prod_id of
        Inl err \<Rightarrow> Inl err
      | Inr row \<Rightarrow>
          (case nth_result row (off + 1) of
             Inl err \<Rightarrow> Inl err
           | Inr result \<Rightarrow>
               Inr (if EMPTY \<in> result then (result - {EMPTY}) \<union> fb else result)))"

text \<open>A lookup in a \<open>defaultdict(list)\<close>: a missing key has the empty list.\<close>

definition dict_get_list :: "('k \<times> 'v list) list \<Rightarrow> 'k \<Rightarrow> 'v list" where
  "dict_get_list d k = (case map_of d k of None \<Rightarrow> [] | Some vs \<Rightarrow> vs)"

text \<open>
  \<open>State.closure\<close>. \<open>closure_callee\<close> is the body of the loop over the productions of
  \<open>next_symbol\<close>, on the pair of \<open>closure\<close> and \<open>closure_todo\<close>; \<open>closure_item\<close> is the
  body of the \<open>while\<close> loop after \<open>popleft\<close>. The \<open>while\<close> loop may run forever: None.
\<close>

definition closure_callee ::
  "PgenContext \<Rightarrow> LRItem \<Rightarrow> nt_name \<Rightarrow> nat \<times> element list \<Rightarrow> LRItem list \<times> LRItem list
     \<Rightarrow> error + (LRItem list \<times> LRItem list)" where
  "closure_callee context item next_symbol callee ct =
     (case callee of (dest_prod_index, callee_rhs) \<Rightarrow> case ct of (cl, todo) \<Rightarrow>
        (case (if callee_rhs \<noteq> [] then Inr True
               else (case map_of (nonterminals (ctx_grammar context)) next_symbol of
                       None \<Rightarrow> Inl KeyError
                     | Some plist \<Rightarrow> Inr (list_ex (\<lambda>p. body p = callee_rhs) plist))) of
           Inl err \<Rightarrow> Inl err
         | Inr False \<Rightarrow> Inr (cl, todo)
         | Inr True \<Rightarrow>
             (case specific_follow (ctx_start_set_cache context) (prod_index item) (offset item)
                     (followed_by item) of
                Inl err \<Rightarrow> Inl err
              | Inr followers \<Rightarrow>
                  (case make_lr_item context dest_prod_index 0 (lookahead item) followers of
                     Inl err \<Rightarrow> Inl err
                   | Inr new_item \<Rightarrow>
                       if new_item \<notin> set cl then Inr (cl @ [new_item], todo @ [new_item])
                       else Inr (cl, todo)))))"

definition closure_item ::
  "PgenContext \<Rightarrow> LRItem \<Rightarrow> LRItem list \<times> LRItem list \<Rightarrow> error + (LRItem list \<times> LRItem list)"
  where
  "closure_item context item ct =
     (case nth_result (ctx_prods context) (prod_index item) of
        Inl err \<Rightarrow> Inl err
      | Inr p \<Rightarrow>
          if offset item < length (p_rhs p)
          then (case p_rhs p ! offset item of
                  Nt next_symbol \<Rightarrow>
                    fold_result (closure_callee context item next_symbol)
                      (dict_get_list (ctx_prods_with_indexes_by_nt context) next_symbol) ct
                | _ \<Rightarrow> Inr ct)
          else Inr ct)"

partial_function (option) closure_loop ::
  "PgenContext \<Rightarrow> LRItem list \<Rightarrow> LRItem list \<Rightarrow> (error + LRItem list) option" where
  "closure_loop context cl todo =
     (case todo of
        [] \<Rightarrow> Some (Inr cl)
      | item # rest \<Rightarrow>
          (case closure_item context item (cl, rest) of
             Inl err \<Rightarrow> Some (Inl err)
           | Inr (cl', todo') \<Rightarrow> closure_loop context cl' todo'))"

declare closure_loop.simps [code]

definition closure :: "PgenContext \<Rightarrow> State \<Rightarrow> (error + LRItem list) option" where
  "closure context self = closure_loop context (ordered_set (lr_items self)) (lr_items self)"

subsection \<open>State.analyze\<close>

text \<open>\<open>d[k].add(v)\<close> on a \<open>defaultdict(OrderedSet)\<close>, the keys in insertion order.\<close>

fun dict_add :: "'k \<Rightarrow> 'v \<Rightarrow> ('k \<times> 'v list) list \<Rightarrow> ('k \<times> 'v list) list" where
  "dict_add k v [] = [(k, [v])]"
| "dict_add k v ((k', vs) # d) =
     (if k' = k then (k, os_add v vs) # d else (k', vs) # dict_add k v d)"

text \<open>
  Step 1 builds three dictionaries. The keys of \<open>shift_items\<close> are terminals, those of
  \<open>reduce_prods\<close> are members of followed_by sets (terminals or END).
\<close>

record analysis =
  shift_items :: "(string \<times> LRItem list) list"
  ctn_items :: "(nt_name \<times> LRItem list) list"
  reduce_prods :: "token \<rightharpoonup> nat"

text \<open>
  The body of the loop \<open>for item in self.closure()\<close>. In the reduce branch the loop
  \<open>for t in item.followed_by\<close> visits the members of a set, each once; it raises when one of
  them that is in \<open>follow[nt]\<close> is already a key of \<open>reduce_prods\<close>, and otherwise enters
  them all, whatever the order of the visit.
\<close>

definition analyze_item :: "PgenContext \<Rightarrow> LRItem \<Rightarrow> analysis \<Rightarrow> error + analysis" where
  "analyze_item context item a =
     (case nth_result (ctx_prods context) (prod_index item) of
        Inl err \<Rightarrow> Inl err
      | Inr p \<Rightarrow>
          if offset item < length (p_rhs p)
          then (case p_rhs p ! offset item of
                  T t \<Rightarrow>
                    if lookahead_contains (lookahead item) (Some t)
                    then (case make_lr_item context (prod_index item) (offset item + 1) None
                                 (followed_by item) of
                            Inl err \<Rightarrow> Inl err
                          | Inr next_item \<Rightarrow>
                              Inr (a\<lparr>shift_items := dict_add t next_item (shift_items a)\<rparr>))
                    else Inr a
                | Nt n \<Rightarrow>
                    (case make_lr_item context (prod_index item) (offset item + 1) None
                            (followed_by item) of
                       Inl err \<Rightarrow> Inl err
                     | Inr next_item \<Rightarrow>
                         Inr (a\<lparr>ctn_items := dict_add n next_item (ctn_items a)\<rparr>))
                | _ \<Rightarrow> Inl AssertionError)
          else if lookahead item \<noteq> None then Inl LookaheadStillActive
          else (let ts = followed_by item \<inter> ctx_follow context (p_nt p)
                in if ts \<inter> dom (reduce_prods a) \<noteq> {} then Inl ReduceReduceConflict
                   else Inr (a\<lparr>reduce_prods :=
                               (\<lambda>t. if t \<in> ts then Some (prod_index item)
                                     else reduce_prods a t)\<rparr>)))"

definition analyze_items :: "PgenContext \<Rightarrow> LRItem list \<Rightarrow> error + analysis" where
  "analyze_items context items =
     fold_result (analyze_item context) items
       \<lparr>shift_items = [], ctn_items = [], reduce_prods = Map.empty\<rparr>"

text \<open>
  The variables of \<open>analyze_states\<close> that \<open>get_state_index\<close> works on. A State object is
  shared between \<open>states\<close>, \<open>states_by_key\<close> and \<open>todo\<close>: here it lives in \<open>states\<close>, and the
  other two hold its position there, which is its id.
\<close>

record builder =
  states :: "State list"
  states_by_key :: "item_triple multiset \<rightharpoonup> nat"
  todo :: "nat list"

definition get_state_index :: "State \<Rightarrow> builder \<Rightarrow> error + (nat \<times> builder)" where
  "get_state_index successor b =
     (case states_by_key b (key successor) of
        Some i \<Rightarrow>
          (case nth_result (states b) i of
             Inl err \<Rightarrow> Inl err
           | Inr state \<Rightarrow>
               (case update state successor of
                  Inl err \<Rightarrow> Inl err
                | Inr (changed, state') \<Rightarrow>
                    (case state_id state' of
                       None \<Rightarrow> Inl AttributeError
                     | Some n \<Rightarrow>
                         Inr (n, b\<lparr>states := (states b)[i := state'],
                                   todo := (if changed then todo b @ [i] else todo b)\<rparr>))))
      | None \<Rightarrow>
          (let n = length (states b)
           in Inr (n, \<lparr>states = states b @ [successor\<lparr>state_id := Some n\<rparr>],
                       states_by_key = (states_by_key b)(key successor \<mapsto> n),
                       todo = todo b @ [n]\<rparr>)))"

text \<open>
  Step 2, first loop: \<open>for t, shift_state in shift_items.items()\<close>, on the pair of
  \<open>action_row\<close> and the builder.
\<close>

definition shift_entry ::
  "externals \<Rightarrow> PgenContext \<Rightarrow> string \<times> LRItem list \<Rightarrow> (token \<rightharpoonup> int) \<times> builder
     \<Rightarrow> error + ((token \<rightharpoonup> int) \<times> builder)" where
  "shift_entry ext context ts rb =
     (case ts of (t, items) \<Rightarrow> case rb of (row, b) \<Rightarrow>
        (case State_init context items of
           Inl err \<Rightarrow> Inl err
         | Inr shift_state \<Rightarrow>
             (case get_state_index shift_state b of
                Inl err \<Rightarrow> Inl err
              | Inr (n, b') \<Rightarrow> Inr (row(Some t \<mapsto> int n), b'))))"

text \<open>
  Second loop: \<open>for t, prod_index in reduce_prods.items()\<close>. It raises when a key of
  \<open>reduce_prods\<close> is already in \<open>action_row\<close>, and otherwise enters every key; the order of
  the visit does not matter. Every index in \<open>reduce_prods\<close> was read from \<open>prods\<close> in step 1.
\<close>

definition is_init_nt :: "nt_name \<Rightarrow> bool" where
  "is_init_nt n = (case n of InitNt goal \<Rightarrow> True | _ \<Rightarrow> False)"

definition reduce_code :: "externals \<Rightarrow> PgenContext \<Rightarrow> nat \<Rightarrow> int" where
  "reduce_code ext context pi =
     (if is_init_nt (p_nt (ctx_prods context ! pi)) then ACCEPT ext else - int pi - 1)"

definition reduce_entries ::
  "externals \<Rightarrow> PgenContext \<Rightarrow> (token \<rightharpoonup> nat) \<Rightarrow> (token \<rightharpoonup> int) \<Rightarrow> error + (token \<rightharpoonup> int)"
  where
  "reduce_entries ext context red row =
     (if \<exists>pi \<in> ran red. \<not> pi < length (ctx_prods context) then Inl IndexError
      else if dom red \<inter> dom row \<noteq> {} then Inl ShiftReduceConflict
      else Inr (\<lambda>t. case red t of
                       Some pi \<Rightarrow> Some (reduce_code ext context pi)
                     | None \<Rightarrow> row t))"

text \<open>The dictionary comprehension that builds \<open>ctn_row\<close>.\<close>

definition ctn_entry ::
  "externals \<Rightarrow> PgenContext \<Rightarrow> nt_name \<times> LRItem list \<Rightarrow> (nt_name \<times> nat) list \<times> builder
     \<Rightarrow> error + ((nt_name \<times> nat) list \<times> builder)" where
  "ctn_entry ext context ns rb =
     (case ns of (n, items) \<Rightarrow> case rb of (row, b) \<Rightarrow>
        (case State_init context items of
           Inl err \<Rightarrow> Inl err
         | Inr s \<Rightarrow>
             (case get_state_index s b of
                Inl err \<Rightarrow> Inl err
              | Inr (i, b') \<Rightarrow> Inr (dict_set n i row, b'))))"

text \<open>
  \<open>State.analyze\<close> for the state at position \<open>i\<close> of \<open>states\<close>. The rows are stored in the
  State object at the end, after the calls of \<open>get_state_index\<close>, which may have merged
  another state into it.
\<close>

definition analyze :: "externals \<Rightarrow> PgenContext \<Rightarrow> nat \<Rightarrow> builder \<Rightarrow> (error + builder) option" where
  "analyze ext context i b =
     (case nth_result (states b) i of
        Inl err \<Rightarrow> Some (Inl err)
      | Inr self \<Rightarrow>
          (case closure context self of
             None \<Rightarrow> None
           | Some (Inl err) \<Rightarrow> Some (Inl err)
           | Some (Inr items) \<Rightarrow>
               Some (case analyze_items context items of
                       Inl err \<Rightarrow> Inl err
                     | Inr a \<Rightarrow>
                         (case fold_result (shift_entry ext context) (shift_items a)
                                 (Map.empty, b) of
                            Inl err \<Rightarrow> Inl err
                          | Inr (shift_row, b1) \<Rightarrow>
                              (case reduce_entries ext context (reduce_prods a) shift_row of
                                 Inl err \<Rightarrow> Inl err
                               | Inr row \<Rightarrow>
                                   (case fold_result (ctn_entry ext context) (ctn_items a)
                                           ([], b1) of
                                      Inl err \<Rightarrow> Inl err
                                    | Inr (ctn, b2) \<Rightarrow>
                                        Inr (b2\<lparr>states := (states b2)
                                               [i := (states b2 ! i)\<lparr>action_row := row,
                                                                      ctn_row := ctn\<rparr>]\<rparr>)))))))"

text \<open>
  \<open>analyze_states\<close>: the initial states, one for each init nonterminal, and the loop
  that drains \<open>todo\<close>, which may run forever.
\<close>

text \<open>\<open>xs.index(x)\<close>: the first position of \<open>x\<close>.\<close>

definition index_of :: "'a list \<Rightarrow> 'a \<Rightarrow> error + nat" where
  "index_of xs x =
     (if x \<in> set xs then Inr (length (takeWhile (\<lambda>y. y \<noteq> x) xs)) else Inl NotInListError)"

definition init_state ::
  "externals \<Rightarrow> PgenContext \<Rightarrow> string \<Rightarrow> (string \<times> nat) list \<times> builder
     \<Rightarrow> error + ((string \<times> nat) list \<times> builder)" where
  "init_state ext context goal mb =
     (case mb of (init_state_map, b) \<Rightarrow>
        (case index_of (ctx_prods context)
                \<lparr>p_nt = InitNt goal, p_index = 0, p_rhs = [Nt (Name goal)], p_removals = [],
                  p_action = RStr ''accept''\<rparr> of
           Inl err \<Rightarrow> Inl err
         | Inr init_prod_index \<Rightarrow>
             (case make_lr_item context init_prod_index 0 None {END} of
                Inl err \<Rightarrow> Inl err
              | Inr start_item \<Rightarrow>
                  (case State_init context [start_item] of
                     Inl err \<Rightarrow> Inl err
                   | Inr s \<Rightarrow>
                       (case get_state_index s b of
                          Inl err \<Rightarrow> Inl err
                        | Inr (i, b') \<Rightarrow> Inr (dict_set goal i init_state_map, b'))))))"

partial_function (option) analyze_loop ::
  "externals \<Rightarrow> PgenContext \<Rightarrow> builder \<Rightarrow> (error + builder) option" where
  "analyze_loop ext context b =
     (case todo b of
        [] \<Rightarrow> Some (Inr b)
      | i # rest \<Rightarrow>
          (case analyze ext context i (b\<lparr>todo := rest\<rparr>) of
             None \<Rightarrow> None
           | Some (Inl err) \<Rightarrow> Some (Inl err)
           | Some (Inr b') \<Rightarrow> analyze_loop ext context b'))"

declare analyze_loop.simps [code]

definition analyze_states ::
  "externals \<Rightarrow> PgenContext \<Rightarrow> (error + (State list \<times> (string \<times> nat) list)) option" where
  "analyze_states ext context =
     (case fold_result (init_state ext context) (init_nts (ctx_grammar context))
             ([], \<lparr>states = [], states_by_key = Map.empty, todo = []\<rparr>) of
        Inl err \<Rightarrow> Some (Inl err)
      | Inr (init_state_map, b) \<Rightarrow>
          (case analyze_loop ext context b of
             None \<Rightarrow> None
           | Some (Inl err) \<Rightarrow> Some (Inl err)
           | Some (Inr b') \<Rightarrow> Some (Inr (states b', init_state_map))))"

section \<open>Properties of the embedding\<close>

lemma expand_range:
  "(e, R) \<in> set (expand_optional_symbols_in_rhs rhs s) \<Longrightarrow> s \<le> length rhs \<Longrightarrow>
     length e + length R = length rhs - s \<and> sorted_wrt (<) R \<and>
     (\<forall>r \<in> set R. s \<le> r \<and> r < length rhs \<and> is_optional (rhs ! r))"
proof (induction rhs s arbitrary: e R rule: expand_optional_symbols_in_rhs.induct)
  case (1 rhs s)
  show ?case
  proof (cases "find_optional rhs s")
    case None
    with "1.prems" show ?thesis
      by (simp add: expand_optional_symbols_in_rhs.simps [of rhs s])
  next
    case (Some i)
    then have i: "s \<le> i" "i < length rhs" "is_optional (rhs ! i)"
      using find_optional_Some by blast+
    from "1.prems" Some obtain expanded r where
      mem: "(expanded, r) \<in> set (expand_optional_symbols_in_rhs rhs (i + 1))" and
      eR: "(e, R) = (slice rhs s i @ expanded, i # r) \<or>
           (e, R) = (slice rhs s i @ [inner (rhs ! i)] @ expanded, r)"
      by (auto simp add: expand_optional_symbols_in_rhs.simps [of rhs s])
    from "1.IH" [OF Some mem] i have ih:
      "length expanded + length r = length rhs - (i + 1)" "sorted_wrt (<) r"
      "\<forall>x \<in> set r. i + 1 \<le> x \<and> x < length rhs \<and> is_optional (rhs ! x)"
      by auto
    have len: "length (slice rhs s i) = i - s"
      using i by (simp add: slice_def)
    from eR show ?thesis
    proof
      assume "(e, R) = (slice rhs s i @ expanded, i # r)"
      with ih i len show ?thesis by auto
    next
      assume "(e, R) = (slice rhs s i @ [inner (rhs ! i)] @ expanded, r)"
      with ih i len show ?thesis by auto
    qed
  qed
qed

lemma fold_result_inv:
  assumes "fold_result f xs s = Inr s'" and "P s"
    and "\<And>x a a'. x \<in> set xs \<Longrightarrow> P a \<Longrightarrow> f x a = Inr a' \<Longrightarrow> P a'"
  shows "P s'"
  using assms
proof (induction xs arbitrary: s)
  case Nil
  then show ?case by simp
next
  case (Cons x xs)
  from Cons.prems(1) obtain a where fx: "f x s = Inr a" and rest: "fold_result f xs a = Inr s'"
    by (auto split: sum.splits)
  have "P a"
    by (rule Cons.prems(3) [OF _ Cons.prems(2) fx]) simp
  moreover have "\<And>y b b'. y \<in> set xs \<Longrightarrow> P b \<Longrightarrow> f y b = Inr b' \<Longrightarrow> P b'"
    by (rule Cons.prems(3)) simp_all
  ultimately show ?case
    by (rule Cons.IH [OF rest])
qed

definition prod_origin :: "grammar \<Rightarrow> Prod \<Rightarrow> bool" where
  "prod_origin g P =
     (\<exists>plist. (p_nt P, plist) \<in> set (nonterminals g) \<and> p_index P < length plist \<and>
        (p_rhs P, p_removals P) \<in>
           set (expand_optional_symbols_in_rhs (body (plist ! p_index P)) 0) \<and>
        adjust_reduce_expr (body (plist ! p_index P)) (p_removals P)
           (action (plist ! p_index P)) = Inr (p_action P))"

lemma expand_one_origin:
  assumes "expand_one n i p er st = Inr st'"
    and "(n, plist) \<in> set (nonterminals g)" and "i < length plist" and "p = plist ! i"
    and "er \<in> set (expand_optional_symbols_in_rhs (body p) 0)"
    and "\<forall>P \<in> set (prods st). prod_origin g P"
  shows "\<forall>P \<in> set (prods st'). prod_origin g P"
proof -
  obtain e R where er: "er = (e, R)" by (cases er)
  from assms(1) er obtain a where
    a: "adjust_reduce_expr (body p) R (action p) = Inr a" and
    st': "prods st' = prods st @ [\<lparr>p_nt = n, p_index = i, p_rhs = e, p_removals = R, p_action = a\<rparr>]"
    by (auto simp add: expand_one_def split: sum.splits)
  have "prod_origin g \<lparr>p_nt = n, p_index = i, p_rhs = e, p_removals = R, p_action = a\<rparr>"
    unfolding prod_origin_def using assms(2-5) er a by auto
  with assms(6) st' show ?thesis by auto
qed

lemma expand_production_origin:
  assumes "expand_production n ip st = Inr st'"
    and "(n, plist) \<in> set (nonterminals g)" and "ip \<in> set (enumerate 0 plist)"
    and "\<forall>P \<in> set (prods st). prod_origin g P"
  shows "\<forall>P \<in> set (prods st'). prod_origin g P"
proof -
  obtain i p where ip: "ip = (i, p)" by (cases ip)
  with assms(3) have i: "i < length plist" "p = plist ! i"
    by (auto simp add: in_set_enumerate_eq)
  from assms(1) ip have
    f: "fold_result (expand_one n i p) (expand_optional_symbols_in_rhs (body p) 0) st = Inr st'"
    by (simp add: expand_production_def)
  show ?thesis
  proof (rule fold_result_inv [OF f, where P = "\<lambda>a. \<forall>P \<in> set (prods a). prod_origin g P"])
    show "\<forall>P \<in> set (prods st). prod_origin g P" by (rule assms(4))
  next
    fix er a a'
    assume "er \<in> set (expand_optional_symbols_in_rhs (body p) 0)"
      and "\<forall>P \<in> set (prods a). prod_origin g P" and "expand_one n i p er a = Inr a'"
    then show "\<forall>P \<in> set (prods a'). prod_origin g P"
      using expand_one_origin [OF _ assms(2) i] by blast
  qed
qed

lemma expand_nt_origin:
  assumes "expand_nt np st = Inr st'"
    and "np \<in> set (nonterminals g)"
    and "\<forall>P \<in> set (prods st). prod_origin g P"
  shows "\<forall>P \<in> set (prods st'). prod_origin g P"
proof -
  obtain n plist where np: "np = (n, plist)" by (cases np)
  let ?st = "st\<lparr>expanded_grammar := dict_set n [] (expanded_grammar st)\<rparr>"
  from assms(1) np have
    f: "fold_result (expand_production n) (enumerate 0 plist) ?st = Inr st'"
    by (simp add: expand_nt_def)
  have start: "\<forall>P \<in> set (prods ?st). prod_origin g P"
    using assms(3) by simp
  from assms(2) np have mem: "(n, plist) \<in> set (nonterminals g)" by simp
  show ?thesis
  proof (rule fold_result_inv [OF f, where P = "\<lambda>a. \<forall>P \<in> set (prods a). prod_origin g P"])
    show "\<forall>P \<in> set (prods ?st). prod_origin g P" by (rule start)
  next
    fix ip a a'
    assume "ip \<in> set (enumerate 0 plist)"
      and "\<forall>P \<in> set (prods a). prod_origin g P" and "expand_production n ip a = Inr a'"
    then show "\<forall>P \<in> set (prods a'). prod_origin g P"
      using expand_production_origin [OF _ mem] by blast
  qed
qed

lemma expand_all_origin:
  assumes "expand_all_optional_elements g = Inr (g', ps, by_nt)"
  shows "\<forall>P \<in> set ps. prod_origin g P"
proof -
  from assms obtain st where
    f: "fold_result expand_nt (nonterminals g)
          \<lparr>expanded_grammar = [], prods = [], prods_with_indexes_by_nt = []\<rparr> = Inr st" and
    ps: "ps = prods st"
    by (auto simp add: expand_all_optional_elements_def split: sum.splits)
  have "\<forall>P \<in> set (prods st). prod_origin g P"
  proof (rule fold_result_inv [OF f, where P = "\<lambda>a. \<forall>P \<in> set (prods a). prod_origin g P"])
    show "\<forall>P \<in> set (prods \<lparr>expanded_grammar = [], prods = [],
             prods_with_indexes_by_nt = []\<rparr>). prod_origin g P"
      by simp
  next
    fix np a a'
    assume "np \<in> set (nonterminals g)"
      and "\<forall>P \<in> set (prods a). prod_origin g P" and "expand_nt np a = Inr a'"
    then show "\<forall>P \<in> set (prods a'). prod_origin g P"
      using expand_nt_origin by blast
  qed
  with ps show ?thesis by simp
qed

text \<open>
  Claim C4. Every flat Prod emitted by \<open>expand_all_optional_elements\<close> comes from a source
  production (entry \<open>p_index\<close> of the list of its nonterminal) whose body is as long as the
  Prod's rhs and removals together; the removals are strictly ascending, and each one is the
  index of an Optional element of that body.
\<close>

theorem removals_invariant:
  assumes "expand_all_optional_elements g = Inr (g', ps, by_nt)" and "P \<in> set ps"
  shows "\<exists>plist. (p_nt P, plist) \<in> set (nonterminals g) \<and> p_index P < length plist \<and>
           length (body (plist ! p_index P)) = length (p_rhs P) + length (p_removals P) \<and>
           sorted_wrt (<) (p_removals P) \<and>
           (\<forall>r \<in> set (p_removals P).
              r < length (body (plist ! p_index P)) \<and> is_optional (body (plist ! p_index P) ! r))"
proof -
  from expand_all_origin [OF assms(1)] assms(2) have "prod_origin g P" by blast
  then obtain plist where
    pl: "(p_nt P, plist) \<in> set (nonterminals g)" "p_index P < length plist" and
    mem: "(p_rhs P, p_removals P) \<in>
            set (expand_optional_symbols_in_rhs (body (plist ! p_index P)) 0)"
    by (auto simp add: prod_origin_def)
  from expand_range [OF mem] have
    "length (p_rhs P) + length (p_removals P) = length (body (plist ! p_index P)) \<and>
     sorted_wrt (<) (p_removals P) \<and>
     (\<forall>r \<in> set (p_removals P).
        r < length (body (plist ! p_index P)) \<and> is_optional (body (plist ! p_index P) ! r))"
    by simp
  with pl show ?thesis by auto
qed


definition scenario_S3 :: grammar where
  "scenario_S3 =
     \<lparr>nonterminals =
        [(Name ''S'', [\<lparr>nt_of = Name ''S'',
                        body = [Optional (Nt (Name ''A'')), Optional (Nt (Name ''B''))],
                        action = CallMethod ''pair'' [RInt 0, RInt 1]\<rparr>]),
         (Name ''A'', [\<lparr>nt_of = Name ''A'', body = [T ''a''], action = RInt 0\<rparr>]),
         (Name ''B'', [\<lparr>nt_of = Name ''B'', body = [T ''b''], action = RInt 0\<rparr>])],
      init_nts = [''S'']\<rparr>"

lemma S3_expansion:
  "expand_optional_symbols_in_rhs [Optional (Nt (Name ''A'')), Optional (Nt (Name ''B''))] 0 =
     [([], [0, 1]), ([Nt (Name ''A'')], [1]), ([Nt (Name ''B'')], [0]),
      ([Nt (Name ''A''), Nt (Name ''B'')], [])]"
  by (simp add: expand_optional_symbols_in_rhs.simps find_optional.simps slice_def)


text \<open>
  Claim C3. \<open>adjust_reduce_expr\<close> for a production body \<open>b\<close> and removals \<open>R\<close>: an integer in
  \<open>R\<close> becomes None; an integer \<open>i\<close> for a kept slot becomes \<open>i'\<close>, which is \<open>i\<close> minus the
  number of elements of \<open>R\<close> below \<open>i\<close>, wrapped in Some exactly when the slot is an Optional;
  None stays None; \<open>Some(e)\<close> becomes Some of the adjusted \<open>e\<close>; \<open>CallMethod(m, args)\<close>
  becomes \<open>CallMethod\<close> of \<open>m\<close> and the adjusted arguments, one by one; \<open>accept\<close> stays.
\<close>

theorem adjust_reduce_expr_cases:
  "(i \<in> int ` set R \<longrightarrow> adjust_reduce_expr b R (RInt i) = Inr RNone) \<and>
   (0 \<le> i \<and> i < int (length b) \<and> i \<notin> int ` set R \<and> is_optional (b ! nat i) \<longrightarrow>
      adjust_reduce_expr b R (RInt i) =
        Inr (RSome (RInt (i - int (length (filter (\<lambda>r. int r < i) R)))))) \<and>
   (0 \<le> i \<and> i < int (length b) \<and> i \<notin> int ` set R \<and> \<not> is_optional (b ! nat i) \<longrightarrow>
      adjust_reduce_expr b R (RInt i) =
        Inr (RInt (i - int (length (filter (\<lambda>r. int r < i) R))))) \<and>
   adjust_reduce_expr b R RNone = Inr RNone \<and>
   (adjust_reduce_expr b R (RSome e) = Inr x \<longleftrightarrow>
      (\<exists>e'. adjust_reduce_expr b R e = Inr e' \<and> x = RSome e')) \<and>
   (adjust_reduce_expr b R (CallMethod m args) = Inr y \<longleftrightarrow>
      (\<exists>args'. list_all2 (\<lambda>a a'. adjust_reduce_expr b R a = Inr a') args args' \<and>
         y = CallMethod m args')) \<and>
   adjust_reduce_expr b R (RStr ''accept'') = Inr (RStr ''accept'')"
proof -
  have args: "adjust_args b R as = Inr as' \<longleftrightarrow>
      list_all2 (\<lambda>a a'. adjust_reduce_expr b R a = Inr a') as as'" for as as'
  proof (induction as arbitrary: as')
    case Nil
    show ?case by auto
  next
    case (Cons a as)
    have "adjust_args b R (a # as) = Inr as' \<longleftrightarrow>
        (\<exists>a' t. adjust_reduce_expr b R a = Inr a' \<and> adjust_args b R as = Inr t \<and> as' = a' # t)"
      by (auto split: sum.splits)
    also have "\<dots> \<longleftrightarrow>
        (\<exists>a' t. adjust_reduce_expr b R a = Inr a' \<and>
           list_all2 (\<lambda>a a'. adjust_reduce_expr b R a = Inr a') as t \<and> as' = a' # t)"
      by (simp add: Cons.IH)
    also have "\<dots> \<longleftrightarrow> list_all2 (\<lambda>a a'. adjust_reduce_expr b R a = Inr a') (a # as) as'"
      by (auto simp add: list_all2_Cons1)
    finally show ?case .
  qed
  have call: "adjust_reduce_expr b R (CallMethod m args) = Inr y \<longleftrightarrow>
      (\<exists>args'. list_all2 (\<lambda>a a'. adjust_reduce_expr b R a = Inr a') args args' \<and>
         y = CallMethod m args')"
    by (auto simp add: args [symmetric] split: sum.splits)
  have some: "adjust_reduce_expr b R (RSome e) = Inr x \<longleftrightarrow>
      (\<exists>e'. adjust_reduce_expr b R e = Inr e' \<and> x = RSome e')"
    by (auto split: sum.splits)
  have ints: "0 \<le> i \<and> i < int (length b) \<and> i \<notin> int ` set R \<Longrightarrow>
      adjust_reduce_expr b R (RInt i) =
        (if is_optional (b ! nat i)
         then Inr (RSome (RInt (i - int (length (filter (\<lambda>r. int r < i) R)))))
         else Inr (RInt (i - int (length (filter (\<lambda>r. int r < i) R)))))"
    by (simp add: py_index_def Let_def)
  show ?thesis
    using call some ints by simp
qed

text \<open>
  Claim C9. \<open>make_epsilon_free_step_2\<close> keeps the goals and the nonterminals; of every
  nonterminal it keeps exactly the productions whose body is nonempty or whose nonterminal
  is a goal, in their order. So an empty body is left on goal nonterminals only, and the
  productions with a nonempty body are the same as before.
\<close>

theorem make_epsilon_free_step_2_keeps:
  "goals (make_epsilon_free_step_2 g) = goals g \<and>
   map fst (nonterminals (make_epsilon_free_step_2 g)) = map fst (nonterminals g) \<and>
   (\<forall>i < length (nonterminals g).
      snd (nonterminals (make_epsilon_free_step_2 g) ! i) =
        filter (\<lambda>p. body p \<noteq> [] \<or> fst (nonterminals g ! i) \<in> set (goals g))
          (snd (nonterminals g ! i))) \<and>
   (\<forall>n plist p. (n, plist) \<in> set (nonterminals (make_epsilon_free_step_2 g)) \<and> p \<in> set plist \<and>
      body p = [] \<longrightarrow> n \<in> set (goals g)) \<and>
   (\<forall>i < length (nonterminals g).
      filter (\<lambda>p. body p \<noteq> []) (snd (nonterminals (make_epsilon_free_step_2 g) ! i)) =
        filter (\<lambda>p. body p \<noteq> []) (snd (nonterminals g ! i)))"
proof -
  let ?keep = "\<lambda>n p. length (body p) > 0 \<or> n \<in> set (goals g)"
  have nts: "nonterminals (make_epsilon_free_step_2 g) =
      map (\<lambda>(n, plist). (n, filter (?keep n) plist)) (nonterminals g)"
    by (simp add: make_epsilon_free_step_2_def with_nonterminals_def)
  have g: "goals (make_epsilon_free_step_2 g) = goals g"
    by (simp add: make_epsilon_free_step_2_def with_nonterminals_def goals_def)
  have keys: "map fst (nonterminals (make_epsilon_free_step_2 g)) = map fst (nonterminals g)"
    by (simp add: nts case_prod_unfold comp_def)
  have row: "snd (nonterminals (make_epsilon_free_step_2 g) ! i) =
        filter (\<lambda>p. body p \<noteq> [] \<or> fst (nonterminals g ! i) \<in> set (goals g))
          (snd (nonterminals g ! i))" if "i < length (nonterminals g)" for i
    using that by (simp add: nts case_prod_unfold)
  have empty: "n \<in> set (goals g)"
    if "(n, plist) \<in> set (nonterminals (make_epsilon_free_step_2 g))" "p \<in> set plist" "body p = []"
    for n plist p
    using that by (auto simp add: nts)
  have same: "filter (\<lambda>p. body p \<noteq> []) (snd (nonterminals (make_epsilon_free_step_2 g) ! i)) =
        filter (\<lambda>p. body p \<noteq> []) (snd (nonterminals g ! i))" if "i < length (nonterminals g)" for i
    using that by (auto simp add: row intro!: filter_cong)
  from g keys row empty same show ?thesis by blast
qed

lemma S3_eval:
  "expand_all_optional_elements scenario_S3 =
   Inr (\<lparr>nonterminals =
         [(Name ''S'',
           [\<lparr>nt_of = Name ''S'', body = [],
               action = CallMethod ''pair'' [RNone, RNone]\<rparr>,
            \<lparr>nt_of = Name ''S'', body = [Nt (Name ''A'')],
               action = CallMethod ''pair'' [RSome (RInt 0), RNone]\<rparr>,
            \<lparr>nt_of = Name ''S'', body = [Nt (Name ''B'')],
               action = CallMethod ''pair'' [RNone, RSome (RInt 0)]\<rparr>,
            \<lparr>nt_of = Name ''S'', body = [Nt (Name ''A''), Nt (Name ''B'')],
               action = CallMethod ''pair'' [RSome (RInt 0), RSome (RInt 1)]\<rparr>]),
          (Name ''A'', [\<lparr>nt_of = Name ''A'', body = [T ''a''], action = RInt 0\<rparr>]),
          (Name ''B'', [\<lparr>nt_of = Name ''B'', body = [T ''b''], action = RInt 0\<rparr>])],
         init_nts = [''S'']\<rparr>,
      [\<lparr>p_nt = Name ''S'', p_index = 0, p_rhs = [], p_removals = [0, 1],
          p_action = CallMethod ''pair'' [RNone, RNone]\<rparr>,
       \<lparr>p_nt = Name ''S'', p_index = 0, p_rhs = [Nt (Name ''A'')], p_removals = [1],
          p_action = CallMethod ''pair'' [RSome (RInt 0), RNone]\<rparr>,
       \<lparr>p_nt = Name ''S'', p_index = 0, p_rhs = [Nt (Name ''B'')], p_removals = [0],
          p_action = CallMethod ''pair'' [RNone, RSome (RInt 0)]\<rparr>,
       \<lparr>p_nt = Name ''S'', p_index = 0, p_rhs = [Nt (Name ''A''), Nt (Name ''B'')],
          p_removals = [],
          p_action = CallMethod ''pair'' [RSome (RInt 0), RSome (RInt 1)]\<rparr>,
       \<lparr>p_nt = Name ''A'', p_index = 0, p_rhs = [T ''a''], p_removals = [],
          p_action = RInt 0\<rparr>,
       \<lparr>p_nt = Name ''B'', p_index = 0, p_rhs = [T ''b''], p_removals = [],
          p_action = RInt 0\<rparr>],
      [(Name ''S'',
        [(0, []), (1, [Nt (Name ''A'')]), (2, [Nt (Name ''B'')]),
         (3, [Nt (Name ''A''), Nt (Name ''B'')])]),
       (Name ''A'', [(4, [T ''a''])]), (Name ''B'', [(5, [T ''b''])])])"
  by code_simp

text \<open>Scenario S3 of the specification: the Prod of \<open>S\<close> that drops both optional slots.\<close>

theorem removals_invariant_witness:
  "(\<exists>g' ps by_nt.
      expand_all_optional_elements scenario_S3 = Inr (g', ps, by_nt) \<and>
      \<lparr>p_nt = Name ''S'', p_index = 0, p_rhs = [], p_removals = [0, 1],
        p_action = CallMethod ''pair'' [RNone, RNone]\<rparr> \<in> set ps) \<and>
   (\<exists>plist. (Name ''S'', plist) \<in> set (nonterminals scenario_S3) \<and> 0 < length plist \<and>
      length (body (plist ! 0)) = length ([] :: element list) + length [0 :: nat, 1] \<and>
      sorted_wrt (<) [0 :: nat, 1] \<and>
      (\<forall>r \<in> set [0 :: nat, 1].
         r < length (body (plist ! 0)) \<and> is_optional (body (plist ! 0) ! r)))"
proof -
  let ?P = "\<lparr>p_nt = Name ''S'', p_index = 0, p_rhs = [], p_removals = [0, 1],
              p_action = CallMethod ''pair'' [RNone, RNone]\<rparr>"
  have "\<exists>g' ps by_nt.
      expand_all_optional_elements scenario_S3 = Inr (g', ps, by_nt) \<and> ?P \<in> set ps"
    by (simp add: S3_eval)
  moreover have "\<exists>plist. (Name ''S'', plist) \<in> set (nonterminals scenario_S3) \<and>
      0 < length plist \<and>
      length (body (plist ! 0)) = length ([] :: element list) + length [0 :: nat, 1] \<and>
      sorted_wrt (<) [0 :: nat, 1] \<and>
      (\<forall>r \<in> set [0 :: nat, 1].
         r < length (body (plist ! 0)) \<and> is_optional (body (plist ! 0) ! r))"
    using removals_invariant [OF S3_eval, of ?P] by simp
  ultimately show ?thesis by blast
qed

theorem adjust_reduce_expr_cases_witness:
  "(1 :: int) \<in> int ` set [1] \<and>
   adjust_reduce_expr [Optional (T ''a''), Optional (T ''b''), T ''c''] [1] (RInt 1) = Inr RNone \<and>
   adjust_reduce_expr [Optional (T ''a''), Optional (T ''b''), T ''c''] [0] (RInt 1) =
     Inr (RSome (RInt 0)) \<and>
   adjust_reduce_expr [Optional (T ''a''), Optional (T ''b''), T ''c''] [0] (RInt 2) =
     Inr (RInt 1) \<and>
   adjust_reduce_expr [Optional (T ''a''), Optional (T ''b''), T ''c''] [0]
     (CallMethod ''f'' [RSome (RInt 0), RInt 2]) = Inr (CallMethod ''f'' [RSome RNone, RInt 1])"
proof -
  let ?b = "[Optional (T ''a''), Optional (T ''b''), T ''c'']"
  have "adjust_reduce_expr ?b [1] (RInt 1) = Inr RNone"
    using adjust_reduce_expr_cases [of 1 "[1]" ?b] by simp
  moreover have "adjust_reduce_expr ?b [0] (RInt 1) = Inr (RSome (RInt 0))"
    using adjust_reduce_expr_cases [of 1 "[0]" ?b] by simp
  moreover have "adjust_reduce_expr ?b [0] (RInt 2) = Inr (RInt 1)"
    using adjust_reduce_expr_cases [of 2 "[0]" ?b] by simp
  moreover have "adjust_reduce_expr ?b [0] (CallMethod ''f'' [RSome (RInt 0), RInt 2]) =
      Inr (CallMethod ''f'' [RSome RNone, RInt 1])"
    using adjust_reduce_expr_cases [where i = 2 and R = "[0]" and b = ?b and e = "RInt 0"
        and x = "RSome RNone" and m = "''f''" and args = "[RSome (RInt 0), RInt 2]"
        and y = "CallMethod ''f'' [RSome RNone, RInt 1]"]
      adjust_reduce_expr_cases [of 0 "[0]" ?b]
    by simp
  ultimately show ?thesis by simp
qed

definition step_2_example :: grammar where
  "step_2_example =
     \<lparr>nonterminals =
        [(Name ''S'', [\<lparr>nt_of = Name ''S'', body = [], action = RNone\<rparr>,
                       \<lparr>nt_of = Name ''S'', body = [Nt (Name ''A'')], action = RInt 0\<rparr>]),
         (Name ''A'', [\<lparr>nt_of = Name ''A'', body = [], action = RNone\<rparr>,
                       \<lparr>nt_of = Name ''A'', body = [T ''a''], action = RInt 0\<rparr>])],
      init_nts = [''S'']\<rparr>"

theorem make_epsilon_free_step_2_keeps_witness:
  "snd (nonterminals (make_epsilon_free_step_2 step_2_example) ! 0) =
     [\<lparr>nt_of = Name ''S'', body = [], action = RNone\<rparr>,
      \<lparr>nt_of = Name ''S'', body = [Nt (Name ''A'')], action = RInt 0\<rparr>] \<and>
   snd (nonterminals (make_epsilon_free_step_2 step_2_example) ! 1) =
     [\<lparr>nt_of = Name ''A'', body = [T ''a''], action = RInt 0\<rparr>] \<and>
   map fst (nonterminals (make_epsilon_free_step_2 step_2_example)) = [Name ''S'', Name ''A'']"
  using make_epsilon_free_step_2_keeps [of step_2_example]
  by (simp add: step_2_example_def goals_def)

subsection \<open>States: consolidation and merging\<close>

text \<open>The union of the followed_by sets of the items with triple \<open>k\<close>.\<close>

definition merged_follow :: "LRItem list \<Rightarrow> item_triple \<Rightarrow> token set" where
  "merged_follow items k = \<Union> (set (map followed_by (filter (\<lambda>i. item_key i = k) items)))"


lemma item_key_item_of [simp]: "item_key (item_of (k, v)) = k"
  by (cases k) (simp add: item_of_def item_key_def)

lemma item_key_item_of_fst: "item_key (item_of kv) = fst kv"
  by (cases kv) simp

lemma key_not_in_image: "item_key x \<notin> item_key ` A \<Longrightarrow> y \<in> A \<Longrightarrow> item_key y \<noteq> item_key x"
  by (metis imageI)

lemma followed_by_item_of [simp]: "followed_by (item_of (k, v)) = v"
  by (cases k) (simp add: item_of_def)

lemma os_add_props: "set (os_add x xs) = insert x (set xs)" "distinct xs \<Longrightarrow> distinct (os_add x xs)"
  by (auto simp add: os_add_def)

lemma ordered_set_foldl:
  "set (foldl (\<lambda>acc x. os_add x acc) a xs) = set a \<union> set xs \<and>
   (distinct a \<longrightarrow> distinct (foldl (\<lambda>acc x. os_add x acc) a xs))"
  by (induction xs arbitrary: a) (auto simp add: os_add_props)

lemma set_ordered_set [simp]: "set (ordered_set xs) = set xs"
  using ordered_set_foldl [of "[]" xs] by (simp add: ordered_set_def)

lemma distinct_ordered_set [simp]: "distinct (ordered_set xs)"
  using ordered_set_foldl [of "[]" xs] by (simp add: ordered_set_def)

lemma ordered_set_foldl_distinct:
  "distinct (a @ xs) \<Longrightarrow> foldl (\<lambda>acc x. os_add x acc) a xs = a @ xs"
  by (induction xs arbitrary: a) (auto simp add: os_add_def)

lemma ordered_set_distinct: "distinct xs \<Longrightarrow> ordered_set xs = xs"
  using ordered_set_foldl_distinct [of "[]" xs] by (simp add: ordered_set_def)

lemma dict_union_keys: "fst ` set (dict_union k v d) = insert k (fst ` set d)"
proof (induction d)
  case Nil
  show ?case by simp
next
  case (Cons kv d)
  obtain k' v' where kv: "kv = (k', v')" by (cases kv)
  show ?case
  proof (cases "k' = k")
    case True
    with kv show ?thesis by simp
  next
    case False
    with kv Cons.IH show ?thesis by (simp add: insert_commute)
  qed
qed

lemma dict_union_distinct: "distinct (map fst d) \<Longrightarrow> distinct (map fst (dict_union k v d))"
  by (induction d) (auto simp add: dict_union_keys)

lemma dict_union_map_of:
  "map_of (dict_union k v d) =
     (map_of d)(k \<mapsto> (case map_of d k of None \<Rightarrow> v | Some v' \<Rightarrow> v' \<union> v))"
  by (induction d) (auto simp add: fun_eq_iff)

lemma consolidate_foldl:
  assumes "distinct (map fst a)"
  shows "distinct (map fst (foldl (\<lambda>a item. dict_union (item_key item) (followed_by item) a) a items)) \<and>
    fst ` set (foldl (\<lambda>a item. dict_union (item_key item) (followed_by item) a) a items) =
      fst ` set a \<union> item_key ` set items \<and>
    (\<forall>k. map_of (foldl (\<lambda>a item. dict_union (item_key item) (followed_by item) a) a items) k =
       (if k \<in> fst ` set a \<union> item_key ` set items
        then Some ((case map_of a k of None \<Rightarrow> {} | Some v \<Rightarrow> v) \<union> merged_follow items k)
        else None))"
  using assms
proof (induction items arbitrary: a)
  case Nil
  have "map_of a k = (if k \<in> fst ` set a
        then Some ((case map_of a k of None \<Rightarrow> {} | Some v \<Rightarrow> v) \<union> merged_follow [] k)
        else None)" for k
  proof (cases "map_of a k")
    case None
    then show ?thesis by (simp add: map_of_eq_None_iff)
  next
    case (Some v)
    then have "k \<in> fst ` set a"
      by (metis domI dom_map_of_conv_image_fst)
    with Some show ?thesis by (simp add: merged_follow_def)
  qed
  with Nil show ?case by simp
next
  case (Cons item items)
  let ?a = "dict_union (item_key item) (followed_by item) a"
  have d: "distinct (map fst ?a)" using Cons.prems by (rule dict_union_distinct)
  note ih = Cons.IH [OF d]
  have keys: "fst ` set ?a = insert (item_key item) (fst ` set a)"
    by (rule dict_union_keys)
  have val: "(case map_of ?a k of None \<Rightarrow> {} | Some v \<Rightarrow> v) \<union> merged_follow items k =
      (case map_of a k of None \<Rightarrow> {} | Some v \<Rightarrow> v) \<union> merged_follow (item # items) k" for k
    by (auto simp add: dict_union_map_of merged_follow_def split: option.splits)
  show ?case
    using ih by (simp add: keys val del: split_paired_All map_of_eq_Some_iff)
qed

lemma consolidate_props:
  "distinct (map fst (consolidate items))"
  "fst ` set (consolidate items) = item_key ` set items"
  "map_of (consolidate items) k =
     (if k \<in> item_key ` set items then Some (merged_follow items k) else None)"
proof -
  have all: "distinct (map fst (consolidate items)) \<and>
      fst ` set (consolidate items) = item_key ` set items \<and>
      (\<forall>k. map_of (consolidate items) k =
         (if k \<in> item_key ` set items then Some (merged_follow items k) else None))"
    using consolidate_foldl [of "[]" items]
    by (simp add: consolidate_def del: split_paired_All map_of_eq_Some_iff)
  from all show "distinct (map fst (consolidate items))" by blast
  from all show "fst ` set (consolidate items) = item_key ` set items" by blast
  from all show "map_of (consolidate items) k =
     (if k \<in> item_key ` set items then Some (merged_follow items k) else None)" by blast
qed

lemma consolidate_set:
  "set (consolidate items) = (\<lambda>k. (k, merged_follow items k)) ` item_key ` set items"
proof -
  have "kv \<in> set (consolidate items) \<longleftrightarrow> map_of (consolidate items) (fst kv) = Some (snd kv)"
    for kv
    using map_of_eq_Some_iff [OF consolidate_props(1), of items "fst kv" "snd kv"] by simp
  then have "kv \<in> set (consolidate items) \<longleftrightarrow>
      fst kv \<in> item_key ` set items \<and> snd kv = merged_follow items (fst kv)" for kv
    by (auto simp add: consolidate_props(3) simp del: map_of_eq_Some_iff)
  then show ?thesis
    by (auto simp add: image_iff) (metis prod.collapse)
qed

lemma State_init_items:
  assumes "State_init context items = Inr st"
  shows "lr_items st = map item_of (consolidate items)"
proof -
  have "distinct (map item_key (map item_of (consolidate items)))"
    using consolidate_props(1) [of items] by (simp add: comp_def case_prod_unfold)
       (metis (no_types, lifting) item_key_item_of map_eq_conv prod.collapse)
  then have "distinct (map item_of (consolidate items))"
    by (metis distinct_map)
  then have "ordered_set (map item_of (consolidate items)) = map item_of (consolidate items)"
    by (rule ordered_set_distinct)
  then show ?thesis
    using assms by (auto simp add: State_init_def Let_def split: sum.splits)
qed


lemma State_init_set:
  assumes "State_init context items = Inr st"
  shows "set (lr_items st) = (\<lambda>k. item_of (k, merged_follow items k)) ` item_key ` set items"
  by (simp add: State_init_items [OF assms] consolidate_set image_image)

lemma new_followed_by_foldl:
  "distinct (map item_key items) \<Longrightarrow>
   foldl (\<lambda>d item. d(item_key item \<mapsto> followed_by item)) d0 items k =
     (if k \<in> item_key ` set items then Some (merged_follow items k) else d0 k)"
proof (induction items rule: rev_induct)
  case Nil
  show ?case by simp
next
  case (snoc x xs)
  from snoc.prems have d: "distinct (map item_key xs)" and nx: "item_key x \<notin> item_key ` set xs"
    by auto
  have none: "merged_follow xs (item_key x) = {}"
    using nx by (auto simp add: merged_follow_def dest: key_not_in_image)
  have app: "merged_follow (xs @ [x]) k =
      merged_follow xs k \<union> (if item_key x = k then followed_by x else {})"
    by (auto simp add: merged_follow_def)
  show ?case
    using snoc.IH [OF d] none by (auto simp add: app)
qed

lemma new_followed_by_eq:
  "distinct (map item_key (lr_items new_state)) \<Longrightarrow>
   new_followed_by new_state k =
     (if k \<in> item_key ` set (lr_items new_state)
      then Some (merged_follow (lr_items new_state) k) else None)"
  by (simp add: new_followed_by_def new_followed_by_foldl)

lemma merged_follow_distinct:
  "distinct (map item_key items) \<Longrightarrow> j \<in> set items \<Longrightarrow>
   merged_follow items (item_key j) = followed_by j"
proof (induction items)
  case Nil
  then show ?case by simp
next
  case (Cons x xs)
  show ?case
  proof (cases "j = x")
    case True
    with Cons.prems have "filter (\<lambda>i. item_key i = item_key j) xs = []"
      by (auto simp add: filter_empty_conv dest: key_not_in_image)
    with True show ?thesis by (simp add: merged_follow_def)
  next
    case False
    with Cons.prems have j: "j \<in> set xs" and "item_key x \<noteq> item_key j"
      by auto
    with Cons.IH Cons.prems show ?thesis by (simp add: merged_follow_def)
  qed
qed

lemma any_new_eq:
  "\<forall>i \<in> set items. \<exists>fb. d (item_key i) = Some fb \<Longrightarrow>
   any_new d items = Inr (\<exists>i \<in> set items. the (d (item_key i)) - followed_by i \<noteq> {})"
  by (induction items) auto

lemma map_result_total:
  "\<forall>x \<in> set xs. f x = Inr (g x) \<Longrightarrow> map_result f xs = Inr (map g xs)"
  by (induction xs) auto

lemma State_init_keys:
  assumes "State_init context items = Inr st"
  shows "distinct (map item_key (lr_items st))"
    and "item_key ` set (lr_items st) = item_key ` set items"
    and "key st = mset (map item_key (lr_items st))"
proof -
  note its = State_init_items [OF assms]
  have keys: "map item_key (lr_items st) = map fst (consolidate items)"
    by (simp add: its comp_def item_key_item_of_fst)
  show "distinct (map item_key (lr_items st))"
    by (simp only: keys consolidate_props(1))
  have "item_key ` set (lr_items st) = set (map item_key (lr_items st))"
    by simp
  also have "\<dots> = fst ` set (consolidate items)"
    by (simp only: keys set_map)
  also have "\<dots> = item_key ` set items"
    by (rule consolidate_props(2))
  finally show "item_key ` set (lr_items st) = item_key ` set items" .
  from assms have "key st = state_key (lr_items st)"
    by (auto simp add: State_init_def Let_def split: sum.splits)
  then show "key st = mset (map item_key (lr_items st))"
    by (simp only: state_key_def)
qed

text \<open>
  Claim C10. When \<open>State.__init__\<close> returns, no two items of the state have the same triple
  (prod_index, offset, lookahead); the triples are those of the items passed in; the
  followed_by set of each item is the union of the followed_by sets of the items passed in
  with that triple; and any other collection of items with the same triples and the same
  unions gives a state with the same set of items and the same key, that is, an equal state.
\<close>

theorem State_init_consolidates:
  assumes "State_init context items = Inr st"
  shows "distinct (map item_key (lr_items st)) \<and>
     item_key ` set (lr_items st) = item_key ` set items \<and>
     (\<forall>it \<in> set (lr_items st). followed_by it = merged_follow items (item_key it)) \<and>
     (\<forall>items' st'. State_init context items' = Inr st' \<and>
        item_key ` set items' = item_key ` set items \<and>
        (\<forall>k. merged_follow items' k = merged_follow items k) \<longrightarrow>
        set (lr_items st') = set (lr_items st) \<and> key st' = key st)"
proof -
  note d = State_init_keys(1) [OF assms] and k = State_init_keys(2) [OF assms]
  have f: "followed_by it = merged_follow items (item_key it)" if "it \<in> set (lr_items st)" for it
  proof -
    from that obtain k where "it = item_of (k, merged_follow items k)"
      unfolding State_init_set [OF assms] by blast
    then show ?thesis by simp
  qed
  have e: "set (lr_items st') = set (lr_items st)"
    if "State_init context items' = Inr st'" "item_key ` set items' = item_key ` set items"
      "\<forall>k. merged_follow items' k = merged_follow items k" for items' st'
  proof -
    have mf: "merged_follow items' = merged_follow items"
    proof
      fix k
      from that(3) show "merged_follow items' k = merged_follow items k" ..
    qed
    have "set (lr_items st') =
        (\<lambda>k. item_of (k, merged_follow items' k)) ` item_key ` set items'"
      by (rule State_init_set [OF that(1)])
    also have "\<dots> = (\<lambda>k. item_of (k, merged_follow items k)) ` item_key ` set items"
      unfolding mf that(2) ..
    also have "\<dots> = set (lr_items st)"
      by (rule State_init_set [OF assms, symmetric])
    finally show ?thesis .
  qed
  have q: "key st' = key st"
    if "State_init context items' = Inr st'" "item_key ` set items' = item_key ` set items"
    for items' st'
  proof -
    have "set (map item_key (lr_items st')) = set (map item_key (lr_items st))"
      using State_init_keys(2) [OF that(1)] k that(2) by simp
    with State_init_keys(1) [OF that(1)] d
    have "mset (map item_key (lr_items st')) = mset (map item_key (lr_items st))"
      by (simp only: set_eq_iff_mset_eq_distinct)
    then show ?thesis
      by (simp only: State_init_keys(3) [OF that(1)] State_init_keys(3) [OF assms])
  qed
  show ?thesis
  proof (intro conjI ballI allI impI)
    show "distinct (map item_key (lr_items st))" by (rule d)
    show "item_key ` set (lr_items st) = item_key ` set items" by (rule k)
    show "followed_by it = merged_follow items (item_key it)" if "it \<in> set (lr_items st)" for it
      using that by (rule f)
    show "set (lr_items st') = set (lr_items st)"
      if "State_init context items' = Inr st' \<and>
        item_key ` set items' = item_key ` set items \<and>
        (\<forall>k. merged_follow items' k = merged_follow items k)" for items' st'
      using that by (elim conjE) (rule e)
    show "key st' = key st"
      if "State_init context items' = Inr st' \<and>
        item_key ` set items' = item_key ` set items \<and>
        (\<forall>k. merged_follow items' k = merged_follow items k)" for items' st'
      using that by (elim conjE) (rule q)
  qed
qed

lemma distinct_keys_length:
  assumes "distinct (map item_key xs)" "distinct (map item_key ys)"
    and "item_key ` set ys = item_key ` set xs"
  shows "length ys = length xs"
proof -
  have "length xs = card (item_key ` set xs)"
    using assms(1) distinct_card [of "map item_key xs"] by simp
  moreover have "length ys = card (item_key ` set ys)"
    using assms(2) distinct_card [of "map item_key ys"] by simp
  ultimately show ?thesis using assms(3) by simp
qed

lemma update_look:
  assumes "distinct (map item_key (lr_items new_state))"
    and "item_key ` set (lr_items new_state) = item_key ` set (lr_items self)"
    and "i \<in> set (lr_items self)"
  shows "new_followed_by new_state (item_key i) =
           Some (merged_follow (lr_items new_state) (item_key i))"
proof -
  from assms(2,3) have "item_key i \<in> item_key ` set (lr_items new_state)" by blast
  then show ?thesis by (simp add: new_followed_by_eq [OF assms(1)])
qed

lemma follow_diff_empty:
  "merged_follow new (item_key i) - followed_by i = {} \<longleftrightarrow>
     (\<forall>j \<in> set new. item_key j = item_key i \<longrightarrow> followed_by j \<subseteq> followed_by i)"
  by (auto simp add: merged_follow_def)

lemma merge_keys:
  "map item_key (map (\<lambda>i. i\<lparr>followed_by := followed_by i \<union> F (item_key i)\<rparr>) xs) = map item_key xs"
  by (simp add: o_def item_key_def)

lemma merge_distinct:
  assumes "distinct (map item_key xs)"
  shows "distinct (map (\<lambda>i. i\<lparr>followed_by := followed_by i \<union> F (item_key i)\<rparr>) xs)"
proof -
  have "distinct (map item_key (map (\<lambda>i. i\<lparr>followed_by := followed_by i \<union> F (item_key i)\<rparr>) xs))"
    by (subst merge_keys) (rule assms)
  then have "distinct (map (\<lambda>i. i\<lparr>followed_by := followed_by i \<union> F (item_key i)\<rparr>) xs) \<and>
      inj_on item_key (set (map (\<lambda>i. i\<lparr>followed_by := followed_by i \<union> F (item_key i)\<rparr>) xs))"
    by (simp only: distinct_map)
  then show ?thesis ..
qed

lemma any_new_merged:
  assumes "\<forall>i \<in> set items. d (item_key i) = Some (F (item_key i))"
  shows "any_new d items = Inr (\<exists>i \<in> set items. F (item_key i) - followed_by i \<noteq> {})"
  using assms by (induction items) auto

lemma map_result_merged:
  assumes "\<forall>i \<in> set items. d (item_key i) = Some (F (item_key i))"
  shows "map_result
      (\<lambda>item. case d (item_key item) of
                 None \<Rightarrow> Inl KeyError
               | Some fb \<Rightarrow> Inr (item\<lparr>followed_by := followed_by item \<union> fb\<rparr>)) items =
      Inr (map (\<lambda>i. i\<lparr>followed_by := followed_by i \<union> F (item_key i)\<rparr>) items)"
  using assms by (induction items) auto

lemma merge_mono:
  "n < length xs \<Longrightarrow>
   followed_by (xs ! n) \<subseteq>
     followed_by (map (\<lambda>i. i\<lparr>followed_by := followed_by i \<union> F (item_key i)\<rparr>) xs ! n)"
  by simp

text \<open>
  Claim C5. For two states with equal keys (whose items have pairwise different triples,
  the same triples in both, as \<open>State.__init__\<close> leaves them), \<open>State.update\<close> returns;
  it returns False and leaves the state as it is iff every followed_by set of the new
  state is a subset of the followed_by set of the item with the same triple; otherwise it
  returns True and each item gets the union of the two sets. In both cases the triples
  stay and no item loses a terminal.
\<close>

theorem update_merges:
  assumes "key new_state = key self"
    and "distinct (map item_key (lr_items self))"
    and "distinct (map item_key (lr_items new_state))"
    and "item_key ` set (lr_items new_state) = item_key ` set (lr_items self)"
  shows "\<exists>changed self'. update self new_state = Inr (changed, self') \<and>
     (changed = False \<longleftrightarrow>
        (\<forall>i \<in> set (lr_items self). \<forall>j \<in> set (lr_items new_state).
           item_key j = item_key i \<longrightarrow> followed_by j \<subseteq> followed_by i)) \<and>
     (\<not> changed \<longrightarrow> self' = self) \<and>
     (changed \<longrightarrow> self' = self\<lparr>lr_items :=
        map (\<lambda>i. i\<lparr>followed_by :=
               followed_by i \<union> merged_follow (lr_items new_state) (item_key i)\<rparr>)
          (lr_items self)\<rparr>) \<and>
     map item_key (lr_items self') = map item_key (lr_items self) \<and>
     (\<forall>n < length (lr_items self).
        followed_by (lr_items self ! n) \<subseteq> followed_by (lr_items self' ! n))"
proof -
  define new where "new = lr_items new_state"
  define old where "old = lr_items self"
  define d where "d = new_followed_by new_state"
  define F where "F = merged_follow new"
  define m where "m = (\<lambda>i. i\<lparr>followed_by := followed_by i \<union> F (item_key i)\<rparr>)"
  have len: "length old = length new"
    unfolding old_def new_def using distinct_keys_length [OF assms(2,3,4)] by simp
  have look: "\<forall>i \<in> set old. d (item_key i) = Some (F (item_key i))"
    unfolding old_def d_def F_def new_def using update_look [OF assms(3,4)] by blast
  define any where "any = (\<exists>i \<in> set old. F (item_key i) - followed_by i \<noteq> {})"
  define all where "all = (\<forall>i \<in> set old. \<forall>j \<in> set new.
      item_key j = item_key i \<longrightarrow> followed_by j \<subseteq> followed_by i)"
  have any_new: "any_new d old = Inr any"
    unfolding any_def by (rule any_new_merged [OF look])
  have sub: "any \<longleftrightarrow> \<not> all"
    unfolding any_def all_def F_def using follow_diff_empty [of new] by blast
  have merged: "map_result
      (\<lambda>item. case d (item_key item) of
                 None \<Rightarrow> Inl KeyError
               | Some fb \<Rightarrow> Inr (item\<lparr>followed_by := followed_by item \<union> fb\<rparr>)) old =
      Inr (map m old)"
    unfolding m_def by (rule map_result_merged [OF look])
  have mkeys: "map item_key (map m old) = map item_key old"
    unfolding m_def by (rule merge_keys)
  have "distinct (map m old)"
    unfolding m_def old_def by (rule merge_distinct [OF assms(2)])
  then have os: "ordered_set (map m old) = map m old"
    by (rule ordered_set_distinct)
  have mono: "\<forall>n < length old. followed_by (old ! n) \<subseteq> followed_by (map m old ! n)"
    unfolding m_def using merge_mono by blast
  have upd: "update self new_state =
      (if any then Inr (True, self\<lparr>lr_items := map m old\<rparr>) else Inr (False, self))"
    using assms(1) len any_new merged os
    unfolding update_def old_def [symmetric] new_def [symmetric] d_def [symmetric]
    by simp
  show ?thesis
  proof (cases any)
    case True
    with upd have u: "update self new_state = Inr (True, self\<lparr>lr_items := map m old\<rparr>)"
      by simp
    from True sub have na: "\<not> all" by simp
    show ?thesis
    proof (intro exI conjI)
      show "update self new_state = Inr (True, self\<lparr>lr_items := map m old\<rparr>)" by (rule u)
      show "(True = False) = (\<forall>i \<in> set (lr_items self). \<forall>j \<in> set (lr_items new_state).
           item_key j = item_key i \<longrightarrow> followed_by j \<subseteq> followed_by i)"
        using na unfolding all_def old_def new_def by simp
      show "\<not> True \<longrightarrow> self\<lparr>lr_items := map m old\<rparr> = self" by simp
      show "True \<longrightarrow> self\<lparr>lr_items := map m old\<rparr> = self\<lparr>lr_items :=
        map (\<lambda>i. i\<lparr>followed_by :=
               followed_by i \<union> merged_follow (lr_items new_state) (item_key i)\<rparr>)
          (lr_items self)\<rparr>"
        unfolding m_def F_def old_def new_def by simp
      show "map item_key (lr_items (self\<lparr>lr_items := map m old\<rparr>)) = map item_key (lr_items self)"
        using mkeys unfolding old_def by simp
      show "\<forall>n < length (lr_items self).
        followed_by (lr_items self ! n) \<subseteq> followed_by (lr_items (self\<lparr>lr_items := map m old\<rparr>) ! n)"
        using mono unfolding old_def by simp
    qed
  next
    case False
    with upd have u: "update self new_state = Inr (False, self)" by simp
    from False sub have a: all by simp
    show ?thesis
    proof (intro exI conjI)
      show "update self new_state = Inr (False, self)" by (rule u)
      show "(False = False) = (\<forall>i \<in> set (lr_items self). \<forall>j \<in> set (lr_items new_state).
           item_key j = item_key i \<longrightarrow> followed_by j \<subseteq> followed_by i)"
        using a unfolding all_def old_def new_def by simp
      show "\<not> False \<longrightarrow> self = self" by simp
      show "False \<longrightarrow> self = self\<lparr>lr_items :=
        map (\<lambda>i. i\<lparr>followed_by :=
               followed_by i \<union> merged_follow (lr_items new_state) (item_key i)\<rparr>)
          (lr_items self)\<rparr>" by simp
      show "map item_key (lr_items self) = map item_key (lr_items self)" by simp
      show "\<forall>n < length (lr_items self).
        followed_by (lr_items self ! n) \<subseteq> followed_by (lr_items self ! n)" by simp
    qed
  qed
qed

definition example_externals :: externals where
  "example_externals = \<lparr>ACCEPT = - 9223372036854775807\<rparr>"

definition example_context :: PgenContext where
  "example_context =
     \<lparr>ctx_grammar = \<lparr>nonterminals = [], init_nts = []\<rparr>,
      ctx_prods = [\<lparr>p_nt = Name ''S'', p_index = 0, p_rhs = [T ''a'', T ''b''],
                     p_removals = [], p_action = RNone\<rparr>],
      ctx_prods_with_indexes_by_nt = [],
      ctx_start_set_cache = [],
      ctx_follow = (\<lambda>n. {})\<rparr>"

definition example_items :: "LRItem list" where
  "example_items =
     [\<lparr>prod_index = 0, offset = 1, lookahead = None, followed_by = {END}\<rparr>,
      \<lparr>prod_index = 0, offset = 1, lookahead = None, followed_by = {Some ''x''}\<rparr>]"

lemma example_State_init:
  "State_init example_context example_items =
     Inr \<lparr>lr_items = [\<lparr>prod_index = 0, offset = 1, lookahead = None,
                          followed_by = {END, Some ''x''}\<rparr>],
          key = {#(0, 1, None)#}, action_row = Map.empty, ctn_row = [], state_id = None\<rparr>"
  by (simp add: State_init_def state_key_def example_context_def example_items_def
      consolidate_def item_key_def item_of_def ordered_set_def os_add_def
      assert_items_are_compatible_def item_history_def nth_result_def last_slice_def
      insert_commute)

lemma example_State_init_merged:
  "State_init example_context
     [\<lparr>prod_index = 0, offset = 1, lookahead = None, followed_by = {END, Some ''x''}\<rparr>] =
     Inr \<lparr>lr_items = [\<lparr>prod_index = 0, offset = 1, lookahead = None,
                          followed_by = {END, Some ''x''}\<rparr>],
          key = {#(0, 1, None)#}, action_row = Map.empty, ctn_row = [], state_id = None\<rparr>"
  by (simp add: State_init_def state_key_def example_context_def
      consolidate_def item_key_def item_of_def ordered_set_def os_add_def
      assert_items_are_compatible_def item_history_def nth_result_def last_slice_def
      insert_commute)

definition example_other :: "LRItem list" where
  "example_other =
     [\<lparr>prod_index = 0, offset = 1, lookahead = None, followed_by = {Some ''x''}\<rparr>,
      \<lparr>prod_index = 0, offset = 1, lookahead = None, followed_by = {END}\<rparr>,
      \<lparr>prod_index = 0, offset = 1, lookahead = None, followed_by = {END, Some ''x''}\<rparr>]"

lemma example_State_init_other:
  "State_init example_context example_other =
     Inr \<lparr>lr_items = [\<lparr>prod_index = 0, offset = 1, lookahead = None,
                          followed_by = {END, Some ''x''}\<rparr>],
          key = {#(0, 1, None)#}, action_row = Map.empty, ctn_row = [], state_id = None\<rparr>"
  by (simp add: State_init_def state_key_def example_context_def example_other_def
      consolidate_def item_key_def item_of_def ordered_set_def os_add_def
      assert_items_are_compatible_def item_history_def nth_result_def last_slice_def
      insert_commute)

theorem State_init_consolidates_witness:
  "State_init example_context example_items =
     Inr \<lparr>lr_items = [\<lparr>prod_index = 0, offset = 1, lookahead = None,
                          followed_by = {END, Some ''x''}\<rparr>],
          key = {#(0, 1, None)#}, action_row = Map.empty, ctn_row = [], state_id = None\<rparr> \<and>
   distinct (map item_key (lr_items (projr (State_init example_context example_items)))) \<and>
   item_key ` set (lr_items (projr (State_init example_context example_items))) =
     {(0, 1, None)} \<and>
   merged_follow example_items (0, 1, None) = {END, Some ''x''} \<and>
   set (lr_items (projr (State_init example_context example_other))) =
     set (lr_items (projr (State_init example_context example_items))) \<and>
   key (projr (State_init example_context example_other)) =
     key (projr (State_init example_context example_items))"
proof -
  have mf: "merged_follow example_items (0, 1, None) = {END, Some ''x''}"
    by (auto simp add: merged_follow_def example_items_def item_key_def)
  have same: "\<forall>k. merged_follow example_other k = merged_follow example_items k"
    by (auto simp add: merged_follow_def example_items_def example_other_def item_key_def)
  have keys: "item_key ` set example_other = item_key ` set example_items"
    by (simp add: example_items_def example_other_def item_key_def)
  have ks: "item_key ` set example_items = {(0, 1, None)}"
    by (simp add: example_items_def item_key_def)
  have st: "projr (State_init example_context example_items) =
     \<lparr>lr_items = [\<lparr>prod_index = 0, offset = 1, lookahead = None,
                          followed_by = {END, Some ''x''}\<rparr>],
          key = {#(0, 1, None)#}, action_row = Map.empty, ctn_row = [], state_id = None\<rparr>"
    by (subst example_State_init) simp
  have st': "projr (State_init example_context example_other) =
     \<lparr>lr_items = [\<lparr>prod_index = 0, offset = 1, lookahead = None,
                          followed_by = {END, Some ''x''}\<rparr>],
          key = {#(0, 1, None)#}, action_row = Map.empty, ctn_row = [], state_id = None\<rparr>"
    by (subst example_State_init_other) simp
  note c = State_init_consolidates [OF example_State_init, folded st]
  from c have c1: "distinct (map item_key
      (lr_items (projr (State_init example_context example_items))))"
    by (rule conjunct1)
  from c have c2: "item_key ` set (lr_items (projr (State_init example_context example_items))) =
      {(0, 1, None)}"
    unfolding ks by (elim conjE)
  from c have "State_init example_context example_other =
        Inr (projr (State_init example_context example_other)) \<and>
      item_key ` set example_other = item_key ` set example_items \<and>
      (\<forall>k. merged_follow example_other k = merged_follow example_items k) \<longrightarrow>
      set (lr_items (projr (State_init example_context example_other))) =
        set (lr_items (projr (State_init example_context example_items))) \<and>
      key (projr (State_init example_context example_other)) =
        key (projr (State_init example_context example_items))"
    by (elim conjE allE)
  moreover have "State_init example_context example_other =
        Inr (projr (State_init example_context example_other))"
    by (subst example_State_init_other)+ simp
  ultimately have c4: "set (lr_items (projr (State_init example_context example_other))) =
        set (lr_items (projr (State_init example_context example_items))) \<and>
      key (projr (State_init example_context example_other)) =
        key (projr (State_init example_context example_items))"
    using keys same by blast
  from example_State_init c1 c2 mf c4 show ?thesis
    by (intro conjI) (elim conjE, assumption)+
qed

definition example_self :: State where
  "example_self =
     \<lparr>lr_items = [\<lparr>prod_index = 0, offset = 1, lookahead = None, followed_by = {END}\<rparr>],
      key = {#(0, 1, None)#}, action_row = Map.empty, ctn_row = [], state_id = Some 0\<rparr>"

definition example_new :: State where
  "example_new =
     \<lparr>lr_items = [\<lparr>prod_index = 0, offset = 1, lookahead = None, followed_by = {Some ''x''}\<rparr>],
      key = {#(0, 1, None)#}, action_row = Map.empty, ctn_row = [], state_id = None\<rparr>"

theorem update_merges_witness:
  "update example_self example_new =
     Inr (True, example_self\<lparr>lr_items :=
       [\<lparr>prod_index = 0, offset = 1, lookahead = None, followed_by = {END, Some ''x''}\<rparr>]\<rparr>) \<and>
   update example_self example_self = Inr (False, example_self)"
proof -
  have k: "key example_new = key example_self"
    by (simp add: example_new_def example_self_def)
  have d1: "distinct (map item_key (lr_items example_self))"
    by (simp add: example_self_def)
  have d2: "distinct (map item_key (lr_items example_new))"
    by (simp add: example_new_def)
  have ks: "item_key ` set (lr_items example_new) = item_key ` set (lr_items example_self)"
    by (simp add: example_new_def example_self_def item_key_def)
  have mf: "merged_follow (lr_items example_new) (0, 1, None) = {Some ''x''}"
    by (simp add: merged_follow_def example_new_def item_key_def)
  have ns: "\<not> (\<forall>i \<in> set (lr_items example_self). \<forall>j \<in> set (lr_items example_new).
      item_key j = item_key i \<longrightarrow> followed_by j \<subseteq> followed_by i)"
    by (simp add: example_new_def example_self_def item_key_def END_def)
  from update_merges [OF k d1 d2 ks] ns
  have "update example_self example_new =
     Inr (True, example_self\<lparr>lr_items :=
        map (\<lambda>i. i\<lparr>followed_by :=
               followed_by i \<union> merged_follow (lr_items example_new) (item_key i)\<rparr>)
          (lr_items example_self)\<rparr>)"
    by auto
  then have first: "update example_self example_new =
     Inr (True, example_self\<lparr>lr_items :=
       [\<lparr>prod_index = 0, offset = 1, lookahead = None, followed_by = {END, Some ''x''}\<rparr>]\<rparr>)"
    using mf by (simp add: example_self_def item_key_def)
  have "\<forall>i \<in> set (lr_items example_self). \<forall>j \<in> set (lr_items example_self).
      item_key j = item_key i \<longrightarrow> followed_by j \<subseteq> followed_by i"
    by (simp add: example_self_def)
  with update_merges [OF refl d1 d1 refl]
  have "update example_self example_self = Inr (False, example_self)"
    by auto
  with first show ?thesis by simp
qed

subsection \<open>Start sets of suffixes\<close>

lemma map_result_Inr:
  "map_result f xs = Inr ys \<longleftrightarrow>
     length ys = length xs \<and> (\<forall>i < length xs. f (xs ! i) = Inr (ys ! i))"
proof (induction xs arbitrary: ys)
  case Nil
  show ?case by auto
next
  case (Cons x xs)
  show ?case
  proof (cases ys)
    case Nil
    then show ?thesis by (auto split: sum.splits)
  next
    case (Cons y ys')
    have "map_result f (x # xs) = Inr (y # ys') \<longleftrightarrow> f x = Inr y \<and> map_result f xs = Inr ys'"
      by (auto split: sum.splits)
    also have "\<dots> \<longleftrightarrow> f x = Inr y \<and> length ys' = length xs \<and>
        (\<forall>i < length xs. f (xs ! i) = Inr (ys' ! i))"
      by (simp add: Cons.IH)
    also have "\<dots> \<longleftrightarrow> length (y # ys') = length (x # xs) \<and>
        (\<forall>i < length (x # xs). f ((x # xs) ! i) = Inr ((y # ys') ! i))"
      by (auto simp add: nth_Cons split: nat.splits)
    finally show ?thesis using Cons by simp
  qed
qed

lemma suffix_start_list_Inr:
  assumes "suffix_start_list g start rhs = Inr sets"
  shows "length sets = length rhs + 1 \<and>
     (\<forall>i \<le> length rhs. seq_start g start (drop i rhs) = Inr (sets ! i))"
proof -
  from assms have "map_result (\<lambda>i. seq_start g start (drop i rhs)) [0..<length rhs + 1] = Inr sets"
    by (auto simp add: suffix_start_list_def split: sum.splits if_splits)
  then have len: "length sets = length [0..<length rhs + 1]"
    and each: "\<forall>i < length [0..<length rhs + 1].
      seq_start g start (drop ([0..<length rhs + 1] ! i) rhs) = Inr (sets ! i)"
    unfolding map_result_Inr by blast+
  from len have l: "length sets = length rhs + 1" by simp
  have "seq_start g start (drop i rhs) = Inr (sets ! i)" if "i \<le> length rhs" for i
  proof -
    from that have i: "i < length [0..<length rhs + 1]" by simp
    then have "[0..<length rhs + 1] ! i = i"
      by (metis add_0 length_upt minus_nat.diff_0 nth_upt)
    with each i show ?thesis by metis
  qed
  with l show ?thesis by blast
qed

lemma start_set_cache_rows:
  assumes "make_start_set_cache g ps start = Inr cache"
  shows "length cache = length ps \<and>
     (\<forall>n < length ps.
        length (cache ! n) = length (p_rhs (ps ! n)) + 1 \<and>
        (\<forall>i \<le> length (p_rhs (ps ! n)).
           seq_start g start (drop i (p_rhs (ps ! n))) = Inr (cache ! n ! i)))"
proof -
  from assms have len: "length cache = length ps"
    and each: "\<forall>n < length ps. suffix_start_list g start (p_rhs (ps ! n)) = Inr (cache ! n)"
    unfolding make_start_set_cache_def map_result_Inr by blast+
  have "length (cache ! n) = length (p_rhs (ps ! n)) + 1 \<and>
        (\<forall>i \<le> length (p_rhs (ps ! n)).
           seq_start g start (drop i (p_rhs (ps ! n))) = Inr (cache ! n ! i))"
    if "n < length ps" for n
    using each that suffix_start_list_Inr by blast
  with len show ?thesis by blast
qed

text \<open>The set that one step of \<open>suffix_start_list\<close> computes from the set of the rest.\<close>

fun composed_start :: "(nt_name \<rightharpoonup> token set) \<Rightarrow> element list \<Rightarrow> token set" where
  "composed_start start [] = {EMPTY}"
| "composed_start start (T t # rest) = {Some t}"
| "composed_start start (Nt n # rest) =
     (case start n of
        None \<Rightarrow> {}
      | Some s \<Rightarrow> if EMPTY \<in> s then (s - {EMPTY}) \<union> composed_start start rest else s)"
| "composed_start start (LookaheadRule la_set positive # rest) =
     (if positive then composed_start start rest \<inter> la_set
      else composed_start start rest - la_set)"
| "composed_start start (e # rest) = {}"

text \<open>
  Right-hand sides on which the two computations agree: terminals other than the text of
  \<open>EMPTY\<close>, nonterminals with a start set, lookahead rules, and no lookahead rule after a
  nonterminal whose start set has \<open>EMPTY\<close>.
\<close>

fun no_lookahead :: "element list \<Rightarrow> bool" where
  "no_lookahead [] = True"
| "no_lookahead (e # rest) = (\<not> is_lookahead_rule e \<and> no_lookahead rest)"

fun lookahead_safe :: "(nt_name \<rightharpoonup> token set) \<Rightarrow> element list \<Rightarrow> bool" where
  "lookahead_safe start [] = True"
| "lookahead_safe start (T t # rest) = (Some t \<noteq> EMPTY \<and> lookahead_safe start rest)"
| "lookahead_safe start (Nt n # rest) =
     (case start n of
        None \<Rightarrow> False
      | Some s \<Rightarrow> lookahead_safe start rest \<and> (if EMPTY \<in> s then no_lookahead rest else True))"
| "lookahead_safe start (LookaheadRule la_set positive # rest) = lookahead_safe start rest"
| "lookahead_safe start (e # rest) = False"

lemma seq_start_loop_done:
  "EMPTY \<notin> s \<Longrightarrow> seq_start_loop g start s xs = Inr s"
  by (cases xs) simp_all

lemma seq_start_loop_composed:
  "lookahead_safe start xs \<Longrightarrow> EMPTY \<in> s \<Longrightarrow> s = {EMPTY} \<or> no_lookahead xs \<Longrightarrow>
   seq_start_loop g start s xs = Inr ((s - {EMPTY}) \<union> composed_start start xs)"
proof (induction xs arbitrary: s)
  case Nil
  then show ?case by auto
next
  case (Cons e rest)
  show ?case
  proof (cases e)
    case (T t)
    with Cons.prems have ne: "Some t \<noteq> EMPTY" by simp
    then have "EMPTY \<notin> insert (Some t) (s - {EMPTY})" by auto
    then have "seq_start_loop g start (insert (Some t) (s - {EMPTY})) rest =
        Inr (insert (Some t) (s - {EMPTY}))"
      by (rule seq_start_loop_done)
    with T Cons.prems(2) show ?thesis by simp
  next
    case (Nt n)
    with Cons.prems(1) obtain fs where fs: "start n = Some fs" and safe: "lookahead_safe start rest"
      and nl: "EMPTY \<in> fs \<Longrightarrow> no_lookahead rest"
      by (auto split: option.splits if_splits)
    show ?thesis
    proof (cases "EMPTY \<in> fs")
      case True
      then have e: "EMPTY \<in> (s - {EMPTY}) \<union> fs" by simp
      from Cons.IH [OF safe e] nl [OF True]
      have "seq_start_loop g start ((s - {EMPTY}) \<union> fs) rest =
          Inr ((((s - {EMPTY}) \<union> fs) - {EMPTY}) \<union> composed_start start rest)"
        by simp
      with Nt fs True Cons.prems(2) show ?thesis by (auto simp add: Un_Diff)
    next
      case False
      then have "EMPTY \<notin> (s - {EMPTY}) \<union> fs" by simp
      then have "seq_start_loop g start ((s - {EMPTY}) \<union> fs) rest = Inr ((s - {EMPTY}) \<union> fs)"
        by (rule seq_start_loop_done)
      with Nt fs False Cons.prems(2) show ?thesis by simp
    qed
  next
    case (LookaheadRule la_set positive)
    with Cons.prems(3) have s: "s = {EMPTY}" by simp
    from LookaheadRule Cons.prems(1) have safe: "lookahead_safe start rest" by simp
    from Cons.IH [OF safe, of "{EMPTY}"]
    have "seq_start_loop g start {EMPTY} rest = Inr (composed_start start rest)" by simp
    with LookaheadRule s show ?thesis by simp
  next
    case (Optional x)
    with Cons.prems(1) show ?thesis by simp
  next
    case (Var x)
    with Cons.prems(1) show ?thesis by simp
  next
    case (Apply x y)
    with Cons.prems(1) show ?thesis by simp
  qed
qed

lemma seq_start_composed:
  "lookahead_safe start xs \<Longrightarrow> seq_start g start xs = Inr (composed_start start xs)"
  using seq_start_loop_composed [of start xs "{EMPTY}" g] by (simp add: seq_start_def)

lemma lookahead_safe_drop: "lookahead_safe start xs \<Longrightarrow> lookahead_safe start (drop i xs)"
proof (induction xs arbitrary: i)
  case Nil
  then show ?case by simp
next
  case (Cons e rest)
  show ?case
  proof (cases i)
    case 0
    with Cons.prems show ?thesis by simp
  next
    case (Suc j)
    from Cons.prems have "lookahead_safe start rest"
      by (cases e) (auto split: option.splits)
    with Cons.IH Suc show ?thesis by simp
  qed
qed

lemma suffix_start_step_composed:
  assumes safe: "lookahead_safe start rhs" and k: "k < length rhs"
    and sets: "sets = map (\<lambda>j. composed_start start (drop (length rhs - j) rhs))
                       [0..<length rhs - k]"
  shows "suffix_start_step g start rhs (rhs ! k) sets =
     Inr (map (\<lambda>j. composed_start start (drop (length rhs - j) rhs)) [0..<length rhs - k + 1])"
proof -
  let ?c = "\<lambda>j. composed_start start (drop (length rhs - j) rhs)"
  from k have pos: "0 < length rhs - k" by simp
  have len: "length sets = length rhs - k" by (simp add: sets)
  from pos len have "sets \<noteq> []" by auto
  then have l1: "last sets = sets ! (length sets - 1)"
    by (rule last_conv_nth)
  have l2: "sets ! (length rhs - k - 1) = ?c (0 + (length rhs - k - 1))"
    unfolding sets using pos by (intro nth_map_upt) simp
  have l3: "length rhs - (0 + (length rhs - k - 1)) = Suc k"
    using k by simp
  have last: "last sets = composed_start start (drop (Suc k) rhs)"
    unfolding l1 len l2 l3 ..
  have cons: "drop k rhs = rhs ! k # drop (Suc k) rhs"
    using k by (simp add: Cons_nth_drop_Suc)
  from lookahead_safe_drop [OF safe, of k] have safe_k: "lookahead_safe start (drop k rhs)" .
  then have expected: "seq_start g start (drop k rhs) = Inr (composed_start start (drop k rhs))"
    by (rule seq_start_composed)
  have dropk: "drop (length rhs - length sets) rhs = drop k rhs"
    using k by (simp add: len)
  have val: "(case rhs ! k of
              T t \<Rightarrow> Inr {Some t}
            | Nt n \<Rightarrow>
                (case start n of
                   None \<Rightarrow> Inl KeyError
                 | Some s \<Rightarrow> Inr (if EMPTY \<in> s then (s - {EMPTY}) \<union> last sets else s))
            | LookaheadRule la_set positive \<Rightarrow>
                Inr (if positive then last sets \<inter> la_set else last sets - la_set)
            | _ \<Rightarrow> Inl AssertionError) = Inr (composed_start start (drop k rhs))"
    using safe_k unfolding cons last
    by (cases "rhs ! k") (auto split: option.splits)
  have "?c (length rhs - k) = composed_start start (drop k rhs)"
    using k by simp
  then have app: "sets @ [composed_start start (drop k rhs)] = map ?c [0..<length rhs - k + 1]"
    by (simp add: sets)
  show ?thesis
    unfolding suffix_start_step_def val dropk expected using app by simp
qed

lemma suffix_fold_composed:
  assumes safe: "lookahead_safe start rhs"
  shows "k \<le> length rhs \<Longrightarrow>
     fold_result (suffix_start_step g start rhs) (rev (take k rhs))
       (map (\<lambda>j. composed_start start (drop (length rhs - j) rhs)) [0..<length rhs - k + 1]) =
     Inr (map (\<lambda>j. composed_start start (drop (length rhs - j) rhs)) [0..<length rhs + 1])"
proof (induction k)
  case 0
  show ?case by simp
next
  case (Suc k)
  then have k: "k < length rhs" by simp
  have rv: "rev (take (Suc k) rhs) = rhs ! k # rev (take k rhs)"
    using k by (simp add: take_Suc_conv_app_nth)
  have idx: "length rhs - Suc k + 1 = length rhs - k"
    using k by simp
  have step: "suffix_start_step g start rhs (rhs ! k)
      (map (\<lambda>j. composed_start start (drop (length rhs - j) rhs)) [0..<length rhs - k]) =
     Inr (map (\<lambda>j. composed_start start (drop (length rhs - j) rhs)) [0..<length rhs - k + 1])"
    by (rule suffix_start_step_composed [OF safe k refl])
  from Suc.IH k have ih: "fold_result (suffix_start_step g start rhs) (rev (take k rhs))
       (map (\<lambda>j. composed_start start (drop (length rhs - j) rhs)) [0..<length rhs - k + 1]) =
     Inr (map (\<lambda>j. composed_start start (drop (length rhs - j) rhs)) [0..<length rhs + 1])"
    by simp
  show ?case
    unfolding rv idx using step ih by simp
qed

lemma rev_composed:
  "rev (map (\<lambda>j. c (n - j)) [0..<n + 1]) = map c [0..<n + 1]"
proof (rule nth_equalityI)
  show "length (rev (map (\<lambda>j. c (n - j)) [0..<n + 1])) = length (map c [0..<n + 1])" by simp
next
  fix i assume "i < length (rev (map (\<lambda>j. c (n - j)) [0..<n + 1]))"
  then have i: "i < n + 1" by simp
  have len: "length (map (\<lambda>j. c (n - j)) [0..<n + 1]) = n + 1" by simp
  have r1: "rev (map (\<lambda>j. c (n - j)) [0..<n + 1]) ! i =
      map (\<lambda>j. c (n - j)) [0..<n + 1] ! (length (map (\<lambda>j. c (n - j)) [0..<n + 1]) - Suc i)"
    by (rule rev_nth) (simp only: len i)
  have r2: "n + 1 - Suc i = n - i" by simp
  have r3: "map (\<lambda>j. c (n - j)) [0..<n + 1] ! (n - i) = c (n - (0 + (n - i)))"
    by (rule nth_map_upt) simp
  have r4: "n - (0 + (n - i)) = i" using i by simp
  have r5: "map c [0..<n + 1] ! i = c (0 + i)"
    by (rule nth_map_upt) (use i in simp)
  show "rev (map (\<lambda>j. c (n - j)) [0..<n + 1]) ! i = map c [0..<n + 1] ! i"
    unfolding r1 len r2 r3 r4 r5 by simp
qed

lemma suffix_start_list_composed:
  assumes safe: "lookahead_safe start rhs"
  shows "suffix_start_list g start rhs =
     Inr (map (\<lambda>i. composed_start start (drop i rhs)) [0..<length rhs + 1])"
proof -
  let ?n = "length rhs"
  have fold: "fold_result (suffix_start_step g start rhs) (rev rhs) [{EMPTY}] =
     Inr (map (\<lambda>j. composed_start start (drop (?n - j) rhs)) [0..<?n + 1])"
    using suffix_fold_composed [OF safe, of ?n g] by simp
  have expected: "map_result (\<lambda>i. seq_start g start (drop i rhs)) [0..<?n + 1] =
     Inr (map (\<lambda>i. composed_start start (drop i rhs)) [0..<?n + 1])"
    by (rule map_result_total)
       (simp add: seq_start_composed [OF lookahead_safe_drop [OF safe]])
  have rv: "rev (map (\<lambda>j. composed_start start (drop (?n - j) rhs)) [0..<?n + 1]) =
     map (\<lambda>i. composed_start start (drop i rhs)) [0..<?n + 1]"
    by (rule rev_composed [of "\<lambda>i. composed_start start (drop i rhs)" ?n])
  show ?thesis
    unfolding suffix_start_list_def fold expected using rv by simp
qed

lemma make_start_set_cache_total:
  assumes "\<forall>p \<in> set ps. lookahead_safe start (p_rhs p)"
  shows "make_start_set_cache g ps start =
     Inr (map (\<lambda>p. map (\<lambda>i. composed_start start (drop i (p_rhs p))) [0..<length (p_rhs p) + 1]) ps)"
  unfolding make_start_set_cache_def
  by (rule map_result_total) (use assms suffix_start_list_composed in blast)

text \<open>
  The asserts of \<open>suffix_start_list\<close> make every cache that is returned agree with
  \<open>seq_start\<close>; and a cache is returned when, in every right-hand side, the terminals differ
  from the text of \<open>EMPTY\<close>, the nonterminals have a start set and no lookahead rule comes
  after a nonterminal whose start set has \<open>EMPTY\<close>.
\<close>

lemma start_set_cache_when_safe:
  "(make_start_set_cache g ps start = Inr cache \<longrightarrow>
      length cache = length ps \<and>
      (\<forall>n < length ps.
         length (cache ! n) = length (p_rhs (ps ! n)) + 1 \<and>
         (\<forall>i \<le> length (p_rhs (ps ! n)).
            seq_start g start (drop i (p_rhs (ps ! n))) = Inr (cache ! n ! i)))) \<and>
   ((\<forall>p \<in> set ps. lookahead_safe start (p_rhs p)) \<longrightarrow>
      (\<exists>c. make_start_set_cache g ps start = Inr c))"
proof (intro conjI impI)
  assume "make_start_set_cache g ps start = Inr cache"
  then show "length cache = length ps"
    using start_set_cache_rows by blast
next
  assume "make_start_set_cache g ps start = Inr cache"
  then show "\<forall>n < length ps.
         length (cache ! n) = length (p_rhs (ps ! n)) + 1 \<and>
         (\<forall>i \<le> length (p_rhs (ps ! n)).
            seq_start g start (drop i (p_rhs (ps ! n))) = Inr (cache ! n ! i))"
    using start_set_cache_rows by blast
next
  assume "\<forall>p \<in> set ps. lookahead_safe start (p_rhs p)"
  then show "\<exists>c. make_start_set_cache g ps start = Inr c"
    using make_start_set_cache_total by blast
qed

definition cache_example_start :: "nt_name \<rightharpoonup> token set" where
  "cache_example_start = [Name ''B'' \<mapsto> {Some ''b'', Some ''x''}]"

definition cache_example_prods :: "Prod list" where
  "cache_example_prods =
     [\<lparr>p_nt = Name ''S'', p_index = 0,
       p_rhs = [LookaheadRule {Some ''x''} False, Nt (Name ''B''), T ''c''],
       p_removals = [], p_action = RNone\<rparr>]"

lemma cache_example_safe:
  "\<forall>p \<in> set cache_example_prods. lookahead_safe cache_example_start (p_rhs p)"
  by (simp add: cache_example_prods_def cache_example_start_def EMPTY_def)

lemma cache_example_value:
  "make_start_set_cache scenario_S3 cache_example_prods cache_example_start =
     Inr [[{Some ''b''}, {Some ''b'', Some ''x''}, {Some ''c''}, {EMPTY}]]"
  unfolding make_start_set_cache_total [OF cache_example_safe]
  by (auto simp add: cache_example_prods_def cache_example_start_def EMPTY_def upt_rec)

lemma start_set_cache_example:
  "make_start_set_cache scenario_S3 cache_example_prods cache_example_start =
     Inr [[{Some ''b''}, {Some ''b'', Some ''x''}, {Some ''c''}, {EMPTY}]] \<and>
   seq_start scenario_S3 cache_example_start
     [LookaheadRule {Some ''x''} False, Nt (Name ''B''), T ''c''] = Inr {Some ''b''} \<and>
   seq_start scenario_S3 cache_example_start [Nt (Name ''B''), T ''c''] =
     Inr {Some ''b'', Some ''x''} \<and>
   seq_start scenario_S3 cache_example_start [] = Inr {EMPTY}"
proof -
  let ?c = "[[{Some ''b''}, {Some ''b'', Some ''x''}, {Some ''c''}, {EMPTY}]]"
  from start_set_cache_when_safe
    [of scenario_S3 cache_example_prods cache_example_start ?c]
    cache_example_value
  have rows: "\<forall>n < length cache_example_prods.
      (\<forall>i \<le> length (p_rhs (cache_example_prods ! n)).
         seq_start scenario_S3 cache_example_start (drop i (p_rhs (cache_example_prods ! n))) =
           Inr (?c ! n ! i))"
    by blast
  have n: "0 < length cache_example_prods" by (simp add: cache_example_prods_def)
  have r: "p_rhs (cache_example_prods ! 0) =
      [LookaheadRule {Some ''x''} False, Nt (Name ''B''), T ''c'']"
    by (simp add: cache_example_prods_def)
  from rows n r have i0: "seq_start scenario_S3 cache_example_start
      (drop 0 [LookaheadRule {Some ''x''} False, Nt (Name ''B''), T ''c'']) = Inr (?c ! 0 ! 0)"
    by (metis le0)
  from rows n r have i1: "seq_start scenario_S3 cache_example_start
      (drop 1 [LookaheadRule {Some ''x''} False, Nt (Name ''B''), T ''c'']) = Inr (?c ! 0 ! 1)"
    by (metis One_nat_def Suc_leI length_Cons zero_less_Suc)
  from rows n r have i3: "seq_start scenario_S3 cache_example_start
      (drop 3 [LookaheadRule {Some ''x''} False, Nt (Name ''B''), T ''c'']) = Inr (?c ! 0 ! 3)"
    by (metis length_Cons list.size(3) numeral_3_eq_3 order_refl)
  from i0 i1 i3 cache_example_value show ?thesis by simp
qed

subsection \<open>The trailing-lookahead validator\<close>

definition trailing_gap_grammar :: grammar where
  "trailing_gap_grammar =
     \<lparr>nonterminals =
        [(Name ''A'', [\<lparr>nt_of = Name ''A'',
                        body = [T ''x'', LookaheadRule {Some ''y''} True, Nt (Name ''B'')],
                        action = RInt 0\<rparr>]),
         (Name ''B'', [\<lparr>nt_of = Name ''B'', body = [], action = RNone\<rparr>,
                       \<lparr>nt_of = Name ''B'', body = [T ''b''], action = RInt 0\<rparr>]),
         (InitNt ''A'', [\<lparr>nt_of = InitNt ''A'', body = [Nt (Name ''A'')],
                          action = RStr ''accept''\<rparr>])],
      init_nts = [''A'']\<rparr>"

lemma gap_empties: "empty_nt_set trailing_gap_grammar = Some (Inr {Name ''B''})"
  by (simp add: empty_nt_set_def fix_point_def fix_loop.simps empty_step_def
      production_is_empty_def trailing_gap_grammar_def)

lemma gap_expansions:
  "expand_optional_symbols_in_rhs [T ''x'', LookaheadRule {Some ''y''} True, Nt (Name ''B'')] 0 =
     [([T ''x'', LookaheadRule {Some ''y''} True, Nt (Name ''B'')], [])]"
  "expand_optional_symbols_in_rhs [] 0 = [([], [])]"
  "expand_optional_symbols_in_rhs [T ''b''] 0 = [([T ''b''], [])]"
  "expand_optional_symbols_in_rhs [Nt (Name ''A'')] 0 = [([Nt (Name ''A'')], [])]"
  by (simp_all add: expand_optional_symbols_in_rhs.simps find_optional.simps)

lemma gap_cycle_free: "check_cycle_free trailing_gap_grammar = Some (Inr ())"
  by (simp add: check_cycle_free_def gap_empties)
     (simp add: trailing_gap_grammar_def direct_produces_of_def gap_expansions
        fix_point_def fix_loop.simps produces_step_def)

lemma gap_accepted: "check_lookahead_rules trailing_gap_grammar = Some (Inr ())"
  by (simp add: check_lookahead_rules_def gap_cycle_free)
     (simp add: trailing_gap_grammar_def gap_expansions)

lemma fold_result_all_pass:
  "fold_result f xs s = Inr s' \<Longrightarrow> x \<in> set xs \<Longrightarrow> \<exists>a a'. f x a = Inr a'"
proof (induction xs arbitrary: s)
  case Nil
  then show ?case by simp
next
  case (Cons y ys)
  from Cons.prems(1) obtain a where y: "f y s = Inr a" and rest: "fold_result f ys a = Inr s'"
    by (auto split: sum.splits)
  show ?case
  proof (cases "x = y")
    case True
    with y show ?thesis by blast
  next
    case False
    with Cons.prems(2) have "x \<in> set ys" by simp
    with Cons.IH [OF rest] show ?thesis .
  qed
qed

lemma trailing_lookahead_rejected:
  assumes "(n, plist) \<in> set (nonterminals g)" and "p \<in> set plist"
    and "(rhs, r) \<in> set (expand_optional_symbols_in_rhs (body p) 0)"
    and "rhs \<noteq> []" and "is_lookahead_rule (last rhs)"
  shows "check_lookahead_rules g \<noteq> Some (Inr ())"
proof
  let ?all = "concat (map (\<lambda>(n, plist).
                concat (map (\<lambda>p. map fst (expand_optional_symbols_in_rhs (body p) 0)) plist))
              (nonterminals g))"
  let ?f = "\<lambda>rhs (u :: unit). if rhs \<noteq> [] \<and> is_lookahead_rule (last rhs)
                             then Inl TrailingLookahead else Inr u"
  assume "check_lookahead_rules g = Some (Inr ())"
  then have ok: "fold_result ?f ?all () = Inr ()"
    by (auto simp add: check_lookahead_rules_def split: option.splits sum.splits)
  from assms(3) have "rhs \<in> fst ` set (expand_optional_symbols_in_rhs (body p) 0)"
    by force
  with assms(1,2) have "rhs \<in> set ?all" by force
  from fold_result_all_pass [OF ok this] obtain a a' where "?f rhs a = Inr a'" by blast
  with assms(4,5) show False by simp
qed

text \<open>
  Claim C2. The docstring of \<open>check_lookahead_rules\<close> asks that no LookaheadRule stands at
  the end of a production or before elements that can produce the empty string. The grammar
  \<open>A ::= x [lookahead in {y}] B\<close>, \<open>B ::= (empty) | b\<close> has a LookaheadRule followed only by
  the nullable nonterminal \<open>B\<close>, and the validator returns without an error.
\<close>

theorem trailing_lookahead_gap:
  "check_lookahead_rules trailing_gap_grammar = Some (Inr ()) \<and>
   empty_nt_set trailing_gap_grammar = Some (Inr {Name ''B''}) \<and>
   (Name ''A'', [\<lparr>nt_of = Name ''A'',
                   body = [T ''x'', LookaheadRule {Some ''y''} True, Nt (Name ''B'')],
                   action = RInt 0\<rparr>]) \<in> set (nonterminals trailing_gap_grammar)"
  by (simp add: gap_accepted gap_empties) (simp add: trailing_gap_grammar_def)

subsection \<open>Start sets of nonterminals\<close>

text \<open>
  Modelled from the spec: derivations, for the glossary's \<open>FIRST\<close> (``the set of terminals
  that can begin a derivation of a symbol''). One step replaces a nonterminal of a
  sentential form by the body of one of its productions.
\<close>

inductive derives :: "grammar \<Rightarrow> element list \<Rightarrow> element list \<Rightarrow> bool" for g where
  derives_refl: "derives g u u"
| derives_step: "derives g u (v @ Nt n # w) \<Longrightarrow> (n, plist) \<in> set (nonterminals g) \<Longrightarrow>
     p \<in> set plist \<Longrightarrow> derives g u (v @ body p @ w)"

definition nullable_goal_source :: grammar where
  "nullable_goal_source =
     \<lparr>nonterminals =
        [(Name ''A'', [\<lparr>nt_of = Name ''A'',
                        body = [Nt (Name ''B''), LookaheadRule {Some ''x''} True, T ''x''],
                        action = RInt 0\<rparr>]),
         (Name ''B'', [\<lparr>nt_of = Name ''B'', body = [T ''b''], action = RInt 0\<rparr>,
                       \<lparr>nt_of = Name ''B'', body = [], action = RNone\<rparr>]),
         (InitNt ''A'', [\<lparr>nt_of = InitNt ''A'', body = [Nt (Name ''A'')],
                          action = RStr ''accept''\<rparr>]),
         (InitNt ''B'', [\<lparr>nt_of = InitNt ''B'', body = [Nt (Name ''B'')],
                          action = RStr ''accept''\<rparr>])],
      init_nts = [''A'', ''B'']\<rparr>"




definition nullable_goal_lowered :: grammar where
  "nullable_goal_lowered =
     \<lparr>nonterminals =
        [(Name ''A'', [\<lparr>nt_of = Name ''A'',
                        body = [LookaheadRule {Some ''x''} True, T ''x''],
                        action = RNone\<rparr>,
                      \<lparr>nt_of = Name ''A'',
                        body = [Nt (Name ''B''), LookaheadRule {Some ''x''} True, T ''x''],
                        action = RSome (RInt 0)\<rparr>]),
         (Name ''B'', [\<lparr>nt_of = Name ''B'', body = [T ''b''], action = RInt 0\<rparr>,
                       \<lparr>nt_of = Name ''B'', body = [], action = RNone\<rparr>]),
         (InitNt ''A'', [\<lparr>nt_of = InitNt ''A'', body = [Nt (Name ''A'')],
                          action = RStr ''accept''\<rparr>]),
         (InitNt ''B'', [\<lparr>nt_of = InitNt ''B'', body = [Nt (Name ''B'')],
                          action = RStr ''accept''\<rparr>])],
      init_nts = [''A'', ''B'']\<rparr>"

lemma nullable_goal_lowering:
  "map_option (map_sum (\<lambda>err. err) fst) (lower_grammar nullable_goal_source) =
     Some (Inr nullable_goal_lowered)"
  by code_simp

lemma nullable_goal_start:
  "map_option (map_sum (\<lambda>err. err) (\<lambda>start. start (Name ''A'')))
     (start_sets nullable_goal_lowered) = Some (Inr (Some {Some ''x''}))"
  by code_simp

lemma nullable_goal_derivation:
  "derives nullable_goal_lowered [Nt (Name ''A'')]
     [T ''b'', LookaheadRule {Some ''x''} True, T ''x'']"
proof -
  have a: "(Name ''A'', [\<lparr>nt_of = Name ''A'',
                        body = [LookaheadRule {Some ''x''} True, T ''x''],
                        action = RNone\<rparr>,
                      \<lparr>nt_of = Name ''A'',
                        body = [Nt (Name ''B''), LookaheadRule {Some ''x''} True, T ''x''],
                        action = RSome (RInt 0)\<rparr>]) \<in> set (nonterminals nullable_goal_lowered)"
    by (simp add: nullable_goal_lowered_def)
  have b: "(Name ''B'', [\<lparr>nt_of = Name ''B'', body = [T ''b''], action = RInt 0\<rparr>,
                       \<lparr>nt_of = Name ''B'', body = [], action = RNone\<rparr>])
      \<in> set (nonterminals nullable_goal_lowered)"
    by (simp add: nullable_goal_lowered_def)
  have "derives nullable_goal_lowered [Nt (Name ''A'')] ([] @ Nt (Name ''A'') # [])"
    by (simp add: derives_refl)
  from derives_step [OF this a, of "\<lparr>nt_of = Name ''A'',
      body = [Nt (Name ''B''), LookaheadRule {Some ''x''} True, T ''x''],
      action = RSome (RInt 0)\<rparr>"]
  have "derives nullable_goal_lowered [Nt (Name ''A'')]
      ([] @ Nt (Name ''B'') # [LookaheadRule {Some ''x''} True, T ''x''])"
    by simp
  from derives_step [OF this b, of "\<lparr>nt_of = Name ''B'', body = [T ''b''], action = RInt 0\<rparr>"]
  show ?thesis by simp
qed

lemma nullable_goal_cache_assertion:
  "make_start_set_cache nullable_goal_lowered
     [\<lparr>p_nt = Name ''A'', p_index = 0,
       p_rhs = [Nt (Name ''B''), LookaheadRule {Some ''x''} True, T ''x''],
       p_removals = [], p_action = RSome (RInt 0)\<rparr>]
     [Name ''A'' \<mapsto> {Some ''x''}, Name ''B'' \<mapsto> {Some ''b'', EMPTY}] = Inl AssertionError"
  by code_simp

text \<open>
  Claim C1. The docstring of \<open>start_sets\<close> makes a nonterminal's start set the set of tokens
  that a match for it may start with. The grammar with goals \<open>A\<close> and \<open>B\<close> and productions
  \<open>A ::= B [lookahead in {x}] x\<close>, \<open>B ::= b | (empty)\<close> passes the validators and is lowered;
  on the lowered grammar \<open>start_sets\<close> returns \<open>{x}\<close> for \<open>A\<close>, while \<open>A\<close> derives \<open>b x\<close>
  (through \<open>B [lookahead in {x}] x\<close>), which begins with \<open>b\<close>.
\<close>

theorem start_sets_misses_leading_terminal:
  "map_option (map_sum (\<lambda>err. err) fst) (lower_grammar nullable_goal_source) =
     Some (Inr nullable_goal_lowered) \<and>
   map_option (map_sum (\<lambda>err. err) (\<lambda>start. start (Name ''A'')))
     (start_sets nullable_goal_lowered) = Some (Inr (Some {Some ''x''})) \<and>
   Some ''b'' \<notin> {Some ''x''} \<and>
   derives nullable_goal_lowered [Nt (Name ''A'')]
     [T ''b'', LookaheadRule {Some ''x''} True, T ''x'']"
  using nullable_goal_lowering nullable_goal_start nullable_goal_derivation by simp

subsection \<open>The cache of start sets on a lowered grammar\<close>

lemma nullable_goal_cache_run:
  "generate_parser_cache nullable_goal_source = Some (Inl AssertionError)"
  by code_simp

lemma nullable_goal_prods:
  "map_option (map_sum (\<lambda>err. err) (\<lambda>(g, ps, by_nt). map p_rhs ps))
     (lower_grammar nullable_goal_source) =
     Some (Inr [[LookaheadRule {Some ''x''} True, T ''x''],
                [Nt (Name ''B''), LookaheadRule {Some ''x''} True, T ''x''],
                [T ''b''], [], [Nt (Name ''A'')], [], [Nt (Name ''B'')]])"
  by code_simp

lemma nullable_goal_suffix_sets:
  "map_option (map_sum (\<lambda>err. err)
       (\<lambda>start. (start (Name ''B''),
          seq_start nullable_goal_lowered start [LookaheadRule {Some ''x''} True, T ''x''],
          composed_start start [Nt (Name ''B''), LookaheadRule {Some ''x''} True, T ''x''],
          seq_start nullable_goal_lowered start
            [Nt (Name ''B''), LookaheadRule {Some ''x''} True, T ''x''],
          suffix_start_step nullable_goal_lowered start
            [Nt (Name ''B''), LookaheadRule {Some ''x''} True, T ''x''] (Nt (Name ''B''))
            [{EMPTY}, {Some ''x''}, {Some ''x''}])))
     (start_sets nullable_goal_lowered) =
     Some (Inr (Some {Some ''b'', EMPTY}, Inr {Some ''x''}, {Some ''b'', Some ''x''},
                Inr {Some ''x''}, Inl AssertionError))"
  by code_simp

text \<open>
  Claim C8. The docstring of \<open>make_start_set_cache\<close> promises a cache with
  \<open>cache[n][i] == seq_start(grammar, start, prods[n][i:])\<close>, and the loop of
  \<open>suffix_start_list\<close> asserts it for every entry. The grammar with goals \<open>A\<close> and \<open>B\<close> and
  productions \<open>A ::= B [lookahead in {x}] x\<close>, \<open>B ::= b | (empty)\<close> is lowered to seven flat
  productions, one of them with the right-hand side \<open>B [lookahead in {x}] x\<close>. With the start
  sets of the lowered grammar, the start set of \<open>B\<close> has \<open>EMPTY\<close>, the entry the loop
  composes for the whole right-hand side is \<open>{b, x}\<close> and \<open>seq_start\<close> returns \<open>{x}\<close> on it:
  the step of the loop raises AssertionError, and so does the run of \<open>generate_parser\<close>; no
  cache is built.
\<close>

theorem start_set_cache_assertion_fails:
  "generate_parser_cache nullable_goal_source = Some (Inl AssertionError) \<and>
   map_option (map_sum (\<lambda>err. err) (\<lambda>(g, ps, by_nt). map p_rhs ps))
     (lower_grammar nullable_goal_source) =
     Some (Inr [[LookaheadRule {Some ''x''} True, T ''x''],
                [Nt (Name ''B''), LookaheadRule {Some ''x''} True, T ''x''],
                [T ''b''], [], [Nt (Name ''A'')], [], [Nt (Name ''B'')]]) \<and>
   map_option (map_sum (\<lambda>err. err)
       (\<lambda>start. (start (Name ''B''),
          seq_start nullable_goal_lowered start [LookaheadRule {Some ''x''} True, T ''x''],
          composed_start start [Nt (Name ''B''), LookaheadRule {Some ''x''} True, T ''x''],
          seq_start nullable_goal_lowered start
            [Nt (Name ''B''), LookaheadRule {Some ''x''} True, T ''x''],
          suffix_start_step nullable_goal_lowered start
            [Nt (Name ''B''), LookaheadRule {Some ''x''} True, T ''x''] (Nt (Name ''B''))
            [{EMPTY}, {Some ''x''}, {Some ''x''}])))
     (start_sets nullable_goal_lowered) =
     Some (Inr (Some {Some ''b'', EMPTY}, Inr {Some ''x''}, {Some ''b'', Some ''x''},
                Inr {Some ''x''}, Inl AssertionError)) \<and>
   {Some ''b'', Some ''x''} \<noteq> {Some ''x''}"
  using nullable_goal_cache_run nullable_goal_prods nullable_goal_suffix_sets
  by (intro conjI) (assumption | simp)+

subsection \<open>Reduce entries of a state\<close>

lemma analyze_item_reduce:
  assumes "analyze_item context item a = Inr a'" and "reduce_prods a' t = Some pi"
  shows "reduce_prods a t = Some pi \<or>
     (prod_index item = pi \<and> pi < length (ctx_prods context) \<and>
      length (p_rhs (ctx_prods context ! pi)) \<le> offset item \<and> lookahead item = None \<and>
      t \<in> followed_by item \<and> t \<in> ctx_follow context (p_nt (ctx_prods context ! pi)))"
proof (cases "prod_index item < length (ctx_prods context)")
  case False
  with assms(1) show ?thesis by (simp add: analyze_item_def nth_result_def)
next
  case True
  let ?p = "ctx_prods context ! prod_index item"
  show ?thesis
  proof (cases "offset item < length (p_rhs ?p)")
    case shift: True
    with assms(1) True have "reduce_prods a' = reduce_prods a"
      by (auto simp add: analyze_item_def nth_result_def split: element.splits sum.splits if_splits)
    with assms(2) show ?thesis by simp
  next
    case reduce: False
    have la: "lookahead item = None"
    proof (rule ccontr)
      assume "lookahead item \<noteq> None"
      with assms(1) True reduce show False
        by (simp add: analyze_item_def nth_result_def)
    qed
    with assms(1) True reduce have
      a': "a' = a\<lparr>reduce_prods :=
          (\<lambda>t. if t \<in> followed_by item \<inter> ctx_follow context (p_nt ?p)
                then Some (prod_index item) else reduce_prods a t)\<rparr>"
      by (simp add: analyze_item_def nth_result_def Let_def split: if_splits)
    show ?thesis
    proof (cases "t \<in> followed_by item \<inter> ctx_follow context (p_nt ?p)")
      case True
      with a' assms(2) have "pi = prod_index item" by (auto split: if_splits)
      with True reduce la \<open>prod_index item < length (ctx_prods context)\<close> show ?thesis by simp
    next
      case False
      with a' assms(2) have "reduce_prods a t = Some pi" by (auto split: if_splits)
      then show ?thesis ..
    qed
  qed
qed

lemma analyze_items_reduce_gen:
  assumes "fold_result (analyze_item context) items a = Inr a'" and "reduce_prods a' t = Some pi"
  shows "reduce_prods a t = Some pi \<or>
     (\<exists>item \<in> set items. prod_index item = pi \<and> pi < length (ctx_prods context) \<and>
      length (p_rhs (ctx_prods context ! pi)) \<le> offset item \<and> lookahead item = None \<and>
      t \<in> followed_by item \<and> t \<in> ctx_follow context (p_nt (ctx_prods context ! pi)))"
  using assms
proof (induction items arbitrary: a)
  case Nil
  then show ?case by simp
next
  case (Cons item items)
  from Cons.prems(1) obtain a1 where i: "analyze_item context item a = Inr a1"
    and rest: "fold_result (analyze_item context) items a1 = Inr a'"
    by (auto split: sum.splits)
  from Cons.IH [OF rest Cons.prems(2)] show ?case
  proof
    assume "reduce_prods a1 t = Some pi"
    from analyze_item_reduce [OF i this] show ?thesis by auto
  next
    assume "\<exists>item \<in> set items. prod_index item = pi \<and> pi < length (ctx_prods context) \<and>
      length (p_rhs (ctx_prods context ! pi)) \<le> offset item \<and> lookahead item = None \<and>
      t \<in> followed_by item \<and> t \<in> ctx_follow context (p_nt (ctx_prods context ! pi))"
    then show ?thesis by auto
  qed
qed

lemma analyze_items_reduce:
  assumes "analyze_items context items = Inr a" and "reduce_prods a t = Some pi"
  shows "\<exists>item \<in> set items. prod_index item = pi \<and> pi < length (ctx_prods context) \<and>
      length (p_rhs (ctx_prods context ! pi)) \<le> offset item \<and> lookahead item = None \<and>
      t \<in> followed_by item \<and> t \<in> ctx_follow context (p_nt (ctx_prods context ! pi))"
  using analyze_items_reduce_gen [OF assms(1) [unfolded analyze_items_def] assms(2)] by simp


lemma skip_lookahead_offset:
  "offset item \<le> length r \<Longrightarrow>
     offset (skip_lookahead r item) \<le> length r \<and>
     prod_index (skip_lookahead r item) = prod_index item"
proof (induction r item rule: skip_lookahead.induct)
  case (1 r item)
  show ?case
  proof (cases "offset item < length r \<and> is_lookahead_rule (r ! offset item)")
    case True
    then have "skip_lookahead r item = skip_lookahead r
        (item\<lparr>offset := offset item + 1,
              lookahead := lookahead_intersect (lookahead item) (rule_of (r ! offset item))\<rparr>)"
      by (subst skip_lookahead.simps) simp
    with 1(1) [OF True] True show ?thesis by simp
  next
    case False
    then have "skip_lookahead r item = item"
      by (subst skip_lookahead.simps) auto
    with 1(2) show ?thesis by simp
  qed
qed

definition item_in_range :: "PgenContext \<Rightarrow> LRItem \<Rightarrow> bool" where
  "item_in_range context item \<longleftrightarrow>
     offset item \<le> length (p_rhs (ctx_prods context ! prod_index item))"

lemma make_lr_item_in_range:
  assumes "make_lr_item context pi off la fb = Inr item"
    and "off \<le> length (p_rhs (ctx_prods context ! pi))"
  shows "item_in_range context item"
proof -
  from assms(1) have "item = skip_lookahead (p_rhs (ctx_prods context ! pi))
      \<lparr>prod_index = pi, offset = off, lookahead = la, followed_by = fb\<rparr>"
    by (auto simp add: make_lr_item_def nth_result_def split: if_splits)
  with skip_lookahead_offset [of "\<lparr>prod_index = pi, offset = off, lookahead = la, followed_by = fb\<rparr>"
      "p_rhs (ctx_prods context ! pi)"] assms(2)
  show ?thesis by (simp add: item_in_range_def)
qed

lemma closure_callee_in_range:
  assumes "closure_callee context item n callee (cl, td) = Inr (cl', td')"
    and "\<forall>k \<in> set cl \<union> set td. item_in_range context k"
  shows "\<forall>k \<in> set cl' \<union> set td'. item_in_range context k"
proof -
  obtain dest callee_rhs where c: "callee = (dest, callee_rhs)" by (cases callee)
  show ?thesis
  proof (cases "cl' = cl \<and> td' = td")
    case True
    with assms(2) show ?thesis by simp
  next
    case False
    with assms(1) c obtain followers new_item where
      n: "make_lr_item context dest 0 (lookahead item) followers = Inr new_item"
      and r: "cl' = cl @ [new_item]" "td' = td @ [new_item]"
      by (auto simp add: closure_callee_def split: sum.splits if_splits bool.splits option.splits)
    from make_lr_item_in_range [OF n] have "item_in_range context new_item" by simp
    with assms(2) r show ?thesis by auto
  qed
qed

lemma closure_item_in_range:
  assumes "closure_item context item (cl, td) = Inr (cl', td')"
    and "\<forall>k \<in> set cl \<union> set td. item_in_range context k"
  shows "\<forall>k \<in> set cl' \<union> set td'. item_in_range context k"
proof (cases "\<exists>n. prod_index item < length (ctx_prods context) \<and>
    offset item < length (p_rhs (ctx_prods context ! prod_index item)) \<and>
    p_rhs (ctx_prods context ! prod_index item) ! offset item = Nt n")
  case True
  then obtain n where n: "prod_index item < length (ctx_prods context)"
    "offset item < length (p_rhs (ctx_prods context ! prod_index item))"
    "p_rhs (ctx_prods context ! prod_index item) ! offset item = Nt n" by blast
  with assms(1) have f: "fold_result (closure_callee context item n)
      (dict_get_list (ctx_prods_with_indexes_by_nt context) n) (cl, td) = Inr (cl', td')"
    by (simp add: closure_item_def nth_result_def)
  have "case (cl', td') of (c, t) \<Rightarrow> \<forall>k \<in> set c \<union> set t. item_in_range context k"
  proof (rule fold_result_inv [OF f])
    from assms(2) show "case (cl, td) of (c, t) \<Rightarrow> \<forall>k \<in> set c \<union> set t. item_in_range context k"
      by simp
  next
    fix x a a'
    assume a: "case a of (c, t) \<Rightarrow> \<forall>k \<in> set c \<union> set t. item_in_range context k"
      and c: "closure_callee context item n x a = Inr a'"
    obtain c1 t1 c2 t2 where s: "a = (c1, t1)" "a' = (c2, t2)" by (cases a, cases a')
    from closure_callee_in_range [OF c [unfolded s]] a s
    show "case a' of (c, t) \<Rightarrow> \<forall>k \<in> set c \<union> set t. item_in_range context k"
      by simp
  qed
  then show ?thesis by simp
next
  case False
  with assms(1) have "cl' = cl \<and> td' = td"
    by (auto simp add: closure_item_def nth_result_def split: if_splits element.splits)
  with assms(2) show ?thesis by simp
qed

lemma closure_loop_in_range:
  assumes "closure_loop context cl td = Some (Inr items)"
    and "\<forall>k \<in> set cl \<union> set td. item_in_range context k"
  shows "\<forall>k \<in> set items. item_in_range context k"
proof -
  define P where "P = (\<lambda>ctx c t (r :: error + LRItem list).
      (\<forall>k \<in> set c \<union> set t. item_in_range ctx k) \<longrightarrow>
      (\<forall>its. r = Inr its \<longrightarrow> (\<forall>k \<in> set its. item_in_range ctx k)))"
  have "P context cl td (Inr items)"
  proof (rule closure_loop.raw_induct [where P = P, OF _ assms(1)])
    fix f ctx c t r
    assume IH: "\<And>ctx' c' t' r'. f ctx' c' t' = Some r' \<Longrightarrow> P ctx' c' t' r'"
      and body: "(case t of [] \<Rightarrow> Some (Inr c)
          | item # rest \<Rightarrow>
              (case closure_item ctx item (c, rest) of
                 Inl err \<Rightarrow> Some (Inl err)
               | Inr (cl', todo') \<Rightarrow> f ctx cl' todo')) = Some r"
    show "P ctx c t r"
    proof (cases t)
      case Nil
      with body show ?thesis by (auto simp add: P_def)
    next
      case (Cons item rest)
      show ?thesis
      proof (cases "closure_item ctx item (c, rest)")
        case (Inl err)
        with body Cons show ?thesis by (auto simp add: P_def)
      next
        case (Inr ct)
        obtain c' t' where ct: "ct = (c', t')" by (cases ct)
        from body Cons Inr ct have loop: "f ctx c' t' = Some r" by simp
        show ?thesis
          unfolding P_def
        proof
          assume a: "\<forall>k \<in> set c \<union> set t. item_in_range ctx k"
          with Cons have "\<forall>k \<in> set c \<union> set rest. item_in_range ctx k" by simp
          from closure_item_in_range [OF Inr [unfolded ct] this]
          have "\<forall>k \<in> set c' \<union> set t'. item_in_range ctx k" .
          with IH [OF loop] show "\<forall>its. r = Inr its \<longrightarrow>
              (\<forall>k \<in> set its. item_in_range ctx k)" unfolding P_def by blast
        qed
      qed
    qed
  qed
  with assms(2) show ?thesis unfolding P_def by blast
qed

lemma closure_in_range:
  assumes "closure context s = Some (Inr items)"
    and "\<forall>k \<in> set (lr_items s). item_in_range context k"
  shows "\<forall>k \<in> set items. item_in_range context k"
  using closure_loop_in_range [OF assms(1) [unfolded closure_def]] assms(2) by simp


definition table_example_context :: PgenContext where
  "table_example_context =
     \<lparr>ctx_grammar =
        \<lparr>nonterminals =
           [(Name ''S'', [\<lparr>nt_of = Name ''S'', body = [T ''a''], action = RInt 0\<rparr>,
                          \<lparr>nt_of = Name ''S'', body = [T ''a'', T ''b''], action = RInt 0\<rparr>]),
            (InitNt ''S'', [\<lparr>nt_of = InitNt ''S'', body = [Nt (Name ''S'')],
                             action = RStr ''accept''\<rparr>])],
         init_nts = [''S'']\<rparr>,
      ctx_prods =
        [\<lparr>p_nt = Name ''S'', p_index = 0, p_rhs = [T ''a''], p_removals = [], p_action = RInt 0\<rparr>,
         \<lparr>p_nt = Name ''S'', p_index = 1, p_rhs = [T ''a'', T ''b''], p_removals = [],
           p_action = RInt 0\<rparr>,
         \<lparr>p_nt = InitNt ''S'', p_index = 0, p_rhs = [Nt (Name ''S'')], p_removals = [],
           p_action = RStr ''accept''\<rparr>],
      ctx_prods_with_indexes_by_nt =
        [(Name ''S'', [(0, [T ''a'']), (1, [T ''a'', T ''b''])]),
         (InitNt ''S'', [(2, [Nt (Name ''S'')])])],
      ctx_start_set_cache =
        [[{Some ''a''}, {EMPTY}], [{Some ''a''}, {Some ''b''}, {EMPTY}], [{Some ''a''}, {EMPTY}]],
      ctx_follow = (\<lambda>n. if n = Name ''S'' \<or> n = InitNt ''S'' then {END} else {})\<rparr>"

definition table_example_state :: State where
  "table_example_state =
     \<lparr>lr_items = [\<lparr>prod_index = 0, offset = 1, lookahead = None, followed_by = {END}\<rparr>,
                  \<lparr>prod_index = 1, offset = 1, lookahead = None, followed_by = {END}\<rparr>],
      key = {#(0, 1, None), (1, 1, None)#}, action_row = Map.empty, ctn_row = [],
      state_id = Some 0\<rparr>"

lemma table_example_closure:
  "closure table_example_context table_example_state =
     Some (Inr [\<lparr>prod_index = 0, offset = 1, lookahead = None, followed_by = {END}\<rparr>,
                \<lparr>prod_index = 1, offset = 1, lookahead = None, followed_by = {END}\<rparr>])"
  by (simp add: closure_def closure_loop.simps closure_item_def nth_result_def
      table_example_context_def table_example_state_def ordered_set_def os_add_def)

lemma table_example_analysis:
  "analyze_items table_example_context
     [\<lparr>prod_index = 0, offset = 1, lookahead = None, followed_by = {END}\<rparr>,
      \<lparr>prod_index = 1, offset = 1, lookahead = None, followed_by = {END}\<rparr>] =
     Inr \<lparr>shift_items = [(''b'', [\<lparr>prod_index = 1, offset = 2, lookahead = None,
                                      followed_by = {END}\<rparr>])],
          ctn_items = [], reduce_prods = [END \<mapsto> 0]\<rparr>"
  by (auto simp add: analyze_items_def analyze_item_def nth_result_def make_lr_item_def
      skip_lookahead.simps lookahead_contains_def table_example_context_def fun_eq_iff)


text \<open>
  Claim C6. Step 1 of \<open>State.analyze\<close> runs over the closure of the state and installs the
  reduce entries in \<open>reduce_prods\<close>. When it ends without an exception, every entry, for a
  token \<open>t\<close> and a production index \<open>pi\<close>, has \<open>pi\<close> an index of \<open>prods\<close>, \<open>t\<close> in
  \<open>follow[prods[pi].nt]\<close>, and in the closure an item of production \<open>pi\<close> whose offset is
  the length of the right-hand side, with no lookahead, whose followed_by set has \<open>t\<close>. The
  offsets of the items of the state itself are taken within their right-hand sides, as
  \<open>make_lr_item\<close> leaves them.
\<close>

theorem reduce_entry_justified:
  assumes "closure context s = Some (Inr items)"
    and "analyze_items context items = Inr a"
    and "reduce_prods a t = Some pi"
    and "\<forall>k \<in> set (lr_items s). item_in_range context k"
  shows "pi < length (ctx_prods context) \<and>
     t \<in> ctx_follow context (p_nt (ctx_prods context ! pi)) \<and>
     (\<exists>item \<in> set items. prod_index item = pi \<and>
        offset item = length (p_rhs (ctx_prods context ! pi)) \<and>
        lookahead item = None \<and> t \<in> followed_by item)"
proof -
  from analyze_items_reduce [OF assms(2,3)] obtain item where
    i: "item \<in> set items" "prod_index item = pi" "pi < length (ctx_prods context)"
      "length (p_rhs (ctx_prods context ! pi)) \<le> offset item" "lookahead item = None"
      "t \<in> followed_by item" "t \<in> ctx_follow context (p_nt (ctx_prods context ! pi))"
    by blast
  from closure_in_range [OF assms(1,4)] i(1) have "item_in_range context item" by blast
  with i(2,4) have "offset item = length (p_rhs (ctx_prods context ! pi))"
    by (simp add: item_in_range_def)
  with i show ?thesis by blast
qed

theorem reduce_entry_justified_witness:
  "closure table_example_context table_example_state =
     Some (Inr [\<lparr>prod_index = 0, offset = 1, lookahead = None, followed_by = {END}\<rparr>,
                \<lparr>prod_index = 1, offset = 1, lookahead = None, followed_by = {END}\<rparr>]) \<and>
   analyze_items table_example_context
     [\<lparr>prod_index = 0, offset = 1, lookahead = None, followed_by = {END}\<rparr>,
      \<lparr>prod_index = 1, offset = 1, lookahead = None, followed_by = {END}\<rparr>] =
     Inr \<lparr>shift_items = [(''b'', [\<lparr>prod_index = 1, offset = 2, lookahead = None,
                                      followed_by = {END}\<rparr>])],
          ctn_items = [], reduce_prods = [END \<mapsto> 0]\<rparr> \<and>
   [END \<mapsto> (0::nat)] END = Some 0 \<and>
   item_in_range table_example_context
     \<lparr>prod_index = 0, offset = 1, lookahead = None, followed_by = {END}\<rparr> \<and>
   item_in_range table_example_context
     \<lparr>prod_index = 1, offset = 1, lookahead = None, followed_by = {END}\<rparr> \<and>
   END \<in> ctx_follow table_example_context (p_nt (ctx_prods table_example_context ! 0)) \<and>
   offset \<lparr>prod_index = 0, offset = 1, lookahead = None, followed_by = {END}\<rparr> =
     length (p_rhs (ctx_prods table_example_context ! 0))"
proof -
  have r: "\<forall>k \<in> set (lr_items table_example_state). item_in_range table_example_context k"
    by (simp add: table_example_state_def table_example_context_def item_in_range_def)
  have e: "reduce_prods \<lparr>shift_items = [(''b'', [\<lparr>prod_index = 1, offset = 2, lookahead = None,
                                      followed_by = {END}\<rparr>])],
          ctn_items = [], reduce_prods = [END \<mapsto> 0]\<rparr> END = Some 0"
    by simp
  from reduce_entry_justified [OF table_example_closure table_example_analysis e r]
  have "END \<in> ctx_follow table_example_context (p_nt (ctx_prods table_example_context ! 0))"
    and "\<exists>item \<in> set [\<lparr>prod_index = 0, offset = 1, lookahead = None, followed_by = {END}\<rparr>,
                \<lparr>prod_index = 1, offset = 1, lookahead = None, followed_by = {END}\<rparr>].
       prod_index item = 0 \<and> offset item = length (p_rhs (ctx_prods table_example_context ! 0))"
    by blast+
  then have "END \<in> ctx_follow table_example_context (p_nt (ctx_prods table_example_context ! 0))"
    and "offset \<lparr>prod_index = 0, offset = 1, lookahead = None, followed_by = {END}\<rparr> =
     length (p_rhs (ctx_prods table_example_context ! 0))"
    by auto
  moreover from r have "item_in_range table_example_context
     \<lparr>prod_index = 0, offset = 1, lookahead = None, followed_by = {END}\<rparr>"
    and "item_in_range table_example_context
     \<lparr>prod_index = 1, offset = 1, lookahead = None, followed_by = {END}\<rparr>"
    by (simp_all add: table_example_state_def)
  ultimately show ?thesis
    using table_example_closure table_example_analysis by simp
qed

subsection \<open>The action row of a state\<close>

text \<open>
  What \<open>analyze_states\<close> keeps true of \<open>states\<close> and \<open>states_by_key\<close>: the id of a state
  is its position, and a key is sent to the position of a state with that key.
\<close>

definition builder_ok :: "builder \<Rightarrow> bool" where
  "builder_ok b \<longleftrightarrow>
     (\<forall>j < length (states b). state_id (states b ! j) = Some j) \<and>
     (\<forall>k j. states_by_key b k = Some j \<longrightarrow> j < length (states b) \<and> key (states b ! j) = k)"

definition builder_extends :: "builder \<Rightarrow> builder \<Rightarrow> bool" where
  "builder_extends b b' \<longleftrightarrow>
     length (states b) \<le> length (states b') \<and>
     (\<forall>j < length (states b). key (states b' ! j) = key (states b ! j))"

lemma builder_extends_refl: "builder_extends b b"
  by (simp add: builder_extends_def)

lemma builder_extends_trans:
  "builder_extends b b1 \<Longrightarrow> builder_extends b1 b2 \<Longrightarrow> builder_extends b b2"
  by (auto simp add: builder_extends_def)

lemma update_keeps:
  assumes "update self new_state = Inr (changed, s')"
  shows "key s' = key self \<and> state_id s' = state_id self"
  using assms
  by (auto simp add: update_def split: if_splits sum.splits bool.splits)

lemma get_state_index_ok:
  assumes "builder_ok b" and "get_state_index s b = Inr (n, b')"
  shows "builder_ok b' \<and> builder_extends b b' \<and> n < length (states b') \<and>
     key (states b' ! n) = key s"
proof (cases "states_by_key b (key s)")
  case None
  with assms(2) have n: "n = length (states b)"
    and b': "b' = \<lparr>states = states b @ [s\<lparr>state_id := Some n\<rparr>],
        states_by_key = (states_by_key b)(key s \<mapsto> n), todo = todo b @ [n]\<rparr>"
    by (auto simp add: get_state_index_def Let_def)
  have "builder_ok b'"
    unfolding builder_ok_def
  proof (intro conjI allI impI)
    fix j assume "j < length (states b')"
    with assms(1) n b' show "state_id (states b' ! j) = Some j"
      by (cases "j = length (states b)") (auto simp add: builder_ok_def nth_append)
  next
    fix k j assume "states_by_key b' k = Some j"
    with assms(1) n b' None show "j < length (states b')"
      by (fastforce simp add: builder_ok_def split: if_splits)
  next
    fix k j assume kj: "states_by_key b' k = Some j"
    show "key (states b' ! j) = k"
    proof (cases "k = key s")
      case True
      with kj n b' show ?thesis by (auto simp add: nth_append)
    next
      case False
      with kj b' have "states_by_key b k = Some j" by simp
      with assms(1) have "j < length (states b)" "key (states b ! j) = k"
        by (simp_all add: builder_ok_def)
      with b' show ?thesis by (simp add: nth_append)
    qed
  qed
  moreover from b' have "builder_extends b b'"
    by (simp add: builder_extends_def nth_append)
  moreover from n b' have "n < length (states b')" "key (states b' ! n) = key s"
    by (simp_all add: nth_append)
  ultimately show ?thesis by simp
next
  case (Some i)
  with assms(1) have i: "i < length (states b)" "key (states b ! i) = key s"
    "state_id (states b ! i) = Some i"
    by (simp_all add: builder_ok_def)
  from assms(2) Some i(1) obtain changed st' where
    u: "update (states b ! i) s = Inr (changed, st')"
    by (auto simp add: get_state_index_def nth_result_def split: sum.splits)
  from update_keeps [OF u] i have st': "key st' = key s" "state_id st' = Some i"
    by simp_all
  from assms(2) Some i(1) u st' have n: "n = i"
    and b': "b' = b\<lparr>states := (states b)[i := st'],
        todo := (if changed then todo b @ [i] else todo b)\<rparr>"
    by (auto simp add: get_state_index_def nth_result_def)
  have "builder_ok b'"
    unfolding builder_ok_def
  proof (intro conjI allI impI)
    fix j assume "j < length (states b')"
    with assms(1) b' st' show "state_id (states b' ! j) = Some j"
      by (cases "j = i") (auto simp add: builder_ok_def)
  next
    fix k j assume "states_by_key b' k = Some j"
    with assms(1) b' show "j < length (states b')"
      by (auto simp add: builder_ok_def)
  next
    fix k j assume "states_by_key b' k = Some j"
    with b' have "states_by_key b k = Some j" by simp
    with assms(1) have "j < length (states b)" "key (states b ! j) = k"
      by (simp_all add: builder_ok_def)
    with b' st' i show "key (states b' ! j) = k"
      by (cases "j = i") auto
  qed
  moreover from b' st' i have "builder_extends b b'"
    by (auto simp add: builder_extends_def nth_list_update)
  moreover from n b' i st' have "n < length (states b')" "key (states b' ! n) = key s"
    by simp_all
  ultimately show ?thesis by simp
qed


definition shift_target :: "PgenContext \<Rightarrow> builder \<Rightarrow> LRItem list \<Rightarrow> nat \<Rightarrow> bool" where
  "shift_target context b its n \<longleftrightarrow>
     (\<exists>s. State_init context its = Inr s \<and> n < length (states b) \<and>
        key (states b ! n) = key s \<and> state_id (states b ! n) = Some n)"

lemma shift_target_extends:
  "shift_target context b its n \<Longrightarrow> builder_extends b b' \<Longrightarrow> builder_ok b' \<Longrightarrow>
     shift_target context b' its n"
  by (auto simp add: shift_target_def builder_extends_def builder_ok_def)

lemma shift_entry_ok:
  assumes "builder_ok b" and "shift_entry ext context (t, its) (row, b) = Inr (row', b')"
  shows "builder_ok b' \<and> builder_extends b b' \<and>
     (\<exists>n. row' = row(Some t \<mapsto> int n) \<and> shift_target context b' its n)"
proof -
  from assms(2) obtain s n where s: "State_init context its = Inr s"
    and g: "get_state_index s b = Inr (n, b')" and r: "row' = row(Some t \<mapsto> int n)"
    by (auto simp add: shift_entry_def split: sum.splits)
  from get_state_index_ok [OF assms(1) g] have ok: "builder_ok b'" "builder_extends b b'"
    "n < length (states b')" "key (states b' ! n) = key s" by simp_all
  from ok(1,3) have "state_id (states b' ! n) = Some n" by (simp add: builder_ok_def)
  with s ok r show ?thesis by (auto simp add: shift_target_def)
qed

lemma shift_fold_ok:
  assumes "builder_ok b"
    and "fold_result (shift_entry ext context) xs (row, b) = Inr (row', b')"
    and "distinct (map fst xs)"
  shows "builder_ok b' \<and> builder_extends b b' \<and>
     (\<forall>x. x \<notin> Some ` fst ` set xs \<longrightarrow> row' x = row x) \<and>
     (\<forall>t its. (t, its) \<in> set xs \<longrightarrow>
        (\<exists>n. row' (Some t) = Some (int n) \<and> shift_target context b' its n))"
  using assms
proof (induction xs arbitrary: row b)
  case Nil
  then show ?case by (simp add: builder_extends_refl)
next
  case (Cons x xs)
  obtain t its where x: "x = (t, its)" by (cases x)
  from Cons.prems(2) obtain rb1 where
    h: "shift_entry ext context x (row, b) = Inr rb1"
    and rest: "fold_result (shift_entry ext context) xs rb1 = Inr (row', b')"
    by (auto split: sum.splits)
  obtain row1 b1 where rb1: "rb1 = (row1, b1)" by (cases rb1)
  from shift_entry_ok [OF Cons.prems(1) h [unfolded x rb1]] obtain n where
    ok1: "builder_ok b1" "builder_extends b b1" and r1: "row1 = row(Some t \<mapsto> int n)"
    and t1: "shift_target context b1 its n" by blast
  from Cons.prems(3) have d: "distinct (map fst xs)" and nt: "t \<notin> fst ` set xs"
    by (simp_all add: x)
  from Cons.IH [OF ok1(1) rest [unfolded rb1] d] have
    ok': "builder_ok b'" "builder_extends b1 b'"
    and same: "\<forall>x. x \<notin> Some ` fst ` set xs \<longrightarrow> row' x = row1 x"
    and sh: "\<forall>t its. (t, its) \<in> set xs \<longrightarrow>
        (\<exists>n. row' (Some t) = Some (int n) \<and> shift_target context b' its n)"
    by simp_all
  from nt have "Some t \<notin> Some ` fst ` set xs" by auto
  with same r1 have here: "row' (Some t) = Some (int n)" by simp
  from shift_target_extends [OF t1 ok'(2) ok'(1)] have t': "shift_target context b' its n" .
  have "builder_extends b b'" by (rule builder_extends_trans [OF ok1(2) ok'(2)])
  moreover have "\<forall>y. y \<notin> Some ` fst ` set (x # xs) \<longrightarrow> row' y = row y"
    using same r1 x by auto
  moreover have "\<forall>u its'. (u, its') \<in> set (x # xs) \<longrightarrow>
        (\<exists>n. row' (Some u) = Some (int n) \<and> shift_target context b' its' n)"
    using sh here t' x by auto
  ultimately show ?case using ok'(1) by simp
qed

lemma dict_add_keys:
  "fst ` set (dict_add k v d) = insert k (fst ` set d)"
proof (induction d)
  case Nil
  show ?case by simp
next
  case (Cons p d)
  obtain k' vs where p: "p = (k', vs)" by (cases p)
  show ?case
  proof (cases "k' = k")
    case True
    with p show ?thesis by simp
  next
    case False
    with p Cons.IH show ?thesis by (simp add: insert_commute)
  qed
qed

lemma dict_add_distinct:
  "distinct (map fst d) \<Longrightarrow> distinct (map fst (dict_add k v d))"
proof (induction d)
  case Nil
  show ?case by simp
next
  case (Cons p d)
  obtain k' vs where p: "p = (k', vs)" by (cases p)
  show ?case
  proof (cases "k' = k")
    case True
    with p Cons.prems show ?thesis by simp
  next
    case False
    with p Cons show ?thesis by (simp add: dict_add_keys)
  qed
qed

lemma analyze_item_shift_distinct:
  assumes "analyze_item context item a = Inr a'" and "distinct (map fst (shift_items a))"
  shows "distinct (map fst (shift_items a'))"
  using assms
  by (auto simp add: analyze_item_def Let_def dict_add_distinct
      split: sum.splits if_splits element.splits)

lemma analyze_items_shift_distinct:
  assumes "analyze_items context items = Inr a"
  shows "distinct (map fst (shift_items a))"
  by (rule fold_result_inv [OF assms [unfolded analyze_items_def],
        where P = "\<lambda>a. distinct (map fst (shift_items a))"])
    (simp_all add: analyze_item_shift_distinct)

lemma ctn_entry_ok:
  assumes "builder_ok b" and "ctn_entry ext context ns (r, b) = Inr (r', b')"
  shows "builder_ok b' \<and> builder_extends b b'"
proof -
  obtain n its where ns: "ns = (n, its)" by (cases ns)
  from assms(2) ns obtain s i where "get_state_index s b = Inr (i, b')"
    by (auto simp add: ctn_entry_def split: sum.splits)
  from get_state_index_ok [OF assms(1) this] show ?thesis by simp
qed

lemma ctn_fold_ok:
  assumes "builder_ok b" and "fold_result (ctn_entry ext context) xs (r, b) = Inr (r', b')"
  shows "builder_ok b' \<and> builder_extends b b'"
proof -
  have "case (r', b') of (r1, b1) \<Rightarrow> builder_ok b1 \<and> builder_extends b b1"
  proof (rule fold_result_inv [OF assms(2)])
    from assms(1) show "case (r, b) of (r1, b1) \<Rightarrow> builder_ok b1 \<and> builder_extends b b1"
      by (simp add: builder_extends_refl)
  next
    fix x p p'
    assume p: "case p of (r1, b1) \<Rightarrow> builder_ok b1 \<and> builder_extends b b1"
      and c: "ctn_entry ext context x p = Inr p'"
    obtain r1 b1 r2 b2 where s: "p = (r1, b1)" "p' = (r2, b2)" by (cases p, cases p')
    from p s have "builder_ok b1" "builder_extends b b1" by simp_all
    with ctn_entry_ok [OF this(1) c [unfolded s]] s
    show "case p' of (r1, b1) \<Rightarrow> builder_ok b1 \<and> builder_extends b b1"
      by (auto intro: builder_extends_trans)
  qed
  then show ?thesis by simp
qed

lemma reduce_entries_row:
  assumes "reduce_entries ext context red row = Inr row'"
  shows "(\<forall>t pi. red t = Some pi \<longrightarrow>
            pi < length (ctx_prods context) \<and> row t = None \<and>
            row' t = Some (reduce_code ext context pi)) \<and>
         (\<forall>t. red t = None \<longrightarrow> row' t = row t)"
proof -
  from assms have r: "\<forall>pi \<in> ran red. pi < length (ctx_prods context)"
    and d: "dom red \<inter> dom row = {}"
    and row': "row' = (\<lambda>t. case red t of
                       Some pi \<Rightarrow> Some (reduce_code ext context pi)
                     | None \<Rightarrow> row t)"
    by (auto simp add: reduce_entries_def split: if_splits)
  show ?thesis
  proof (intro conjI allI impI)
    fix t pi assume t: "red t = Some pi"
    then have "pi \<in> ran red" by (auto simp add: ran_def)
    with r show "pi < length (ctx_prods context)" by blast
    from t d show "row t = None" by auto
    from t row' show "row' t = Some (reduce_code ext context pi)" by simp
  next
    fix t assume "red t = None"
    with row' show "row' t = row t" by simp
  qed
qed


lemma analyze_parts:
  assumes "analyze ext context i b = Some (Inr b')"
  obtains items a shift_row b1 row ctn b2 where
    "i < length (states b)"
    "closure context (states b ! i) = Some (Inr items)"
    "analyze_items context items = Inr a"
    "fold_result (shift_entry ext context) (shift_items a) (Map.empty, b) = Inr (shift_row, b1)"
    "reduce_entries ext context (reduce_prods a) shift_row = Inr row"
    "fold_result (ctn_entry ext context) (ctn_items a) ([], b1) = Inr (ctn, b2)"
    "b' = b2\<lparr>states := (states b2)[i := (states b2 ! i)\<lparr>action_row := row, ctn_row := ctn\<rparr>]\<rparr>"
proof -
  from assms have i: "i < length (states b)"
    by (auto simp add: analyze_def nth_result_def split: if_splits)
  with assms obtain items where c: "closure context (states b ! i) = Some (Inr items)"
    by (auto simp add: analyze_def nth_result_def split: option.splits sum.splits)
  with assms i obtain a where a: "analyze_items context items = Inr a"
    by (auto simp add: analyze_def nth_result_def split: sum.splits)
  with assms i c obtain shift_row b1 where
    s: "fold_result (shift_entry ext context) (shift_items a) (Map.empty, b) = Inr (shift_row, b1)"
    by (auto simp add: analyze_def nth_result_def split: sum.splits)
  with assms i c a obtain row where
    r: "reduce_entries ext context (reduce_prods a) shift_row = Inr row"
    by (auto simp add: analyze_def nth_result_def split: sum.splits)
  with assms i c a s obtain ctn b2 where
    n: "fold_result (ctn_entry ext context) (ctn_items a) ([], b1) = Inr (ctn, b2)"
    by (auto simp add: analyze_def nth_result_def split: sum.splits)
  with assms i c a s r have
    "b' = b2\<lparr>states := (states b2)[i := (states b2 ! i)\<lparr>action_row := row, ctn_row := ctn\<rparr>]\<rparr>"
    by (simp add: analyze_def nth_result_def)
  with i c a s r n show ?thesis by (rule that)
qed

lemma store_rows_ok:
  assumes "builder_ok b2"
    and "b' = b2\<lparr>states := (states b2)[i := (states b2 ! i)\<lparr>action_row := row, ctn_row := ctn\<rparr>]\<rparr>"
  shows "builder_ok b' \<and> builder_extends b2 b'"
proof -
  have k: "key (states b' ! j) = key (states b2 ! j) \<and>
      state_id (states b' ! j) = state_id (states b2 ! j)" if "j < length (states b2)" for j
    using that assms(2) by (cases "j = i") simp_all
  from assms(2) have l: "length (states b') = length (states b2)"
    and m: "states_by_key b' = states_by_key b2" by simp_all
  from assms(1) k l m show ?thesis
    by (simp add: builder_ok_def builder_extends_def)
qed

lemma analyze_builder_ok:
  assumes "builder_ok b" and "analyze ext context i b = Some (Inr b')"
  shows "builder_ok b' \<and> builder_extends b b'"
proof -
  from assms(2) obtain items a shift_row b1 row ctn b2 where
    a: "analyze_items context items = Inr a"
    and s: "fold_result (shift_entry ext context) (shift_items a) (Map.empty, b) =
        Inr (shift_row, b1)"
    and n: "fold_result (ctn_entry ext context) (ctn_items a) ([], b1) = Inr (ctn, b2)"
    and b': "b' = b2\<lparr>states := (states b2)
        [i := (states b2 ! i)\<lparr>action_row := row, ctn_row := ctn\<rparr>]\<rparr>"
    by (rule analyze_parts)
  from shift_fold_ok [OF assms(1) s analyze_items_shift_distinct [OF a]]
  have 1: "builder_ok b1" "builder_extends b b1" by simp_all
  from ctn_fold_ok [OF 1(1) n] have 2: "builder_ok b2" "builder_extends b1 b2" by simp_all
  from store_rows_ok [OF 2(1) b'] have 3: "builder_ok b'" "builder_extends b2 b'" by simp_all
  from 1(2) 2(2) 3(2) have "builder_extends b b'"
    by (blast intro: builder_extends_trans)
  with 3(1) show ?thesis by simp
qed

text \<open>
  Claim C7. When \<open>State.analyze\<close> returns, so that no conflict was raised, the action row
  stored in the state has, for every terminal \<open>t\<close> that is a key of \<open>shift_items\<close>, the
  nonnegative integer \<open>n\<close> that is the id of the successor state: the state at position \<open>n\<close>
  of \<open>states\<close>, whose key is that of the State made of \<open>shift_items[t]\<close>; for every key \<open>t\<close>
  of \<open>reduce_prods\<close>, with production index \<open>pi\<close>, \<open>ACCEPT\<close> when \<open>prods[pi].nt\<close> is an
  InitNt and \<open>-pi - 1\<close> otherwise; and no other entry. The builder is as \<open>analyze_states\<close>
  keeps it: each state's id is its position and \<open>states_by_key\<close> sends a key to a state
  with that key.
\<close>

theorem action_row_encoding:
  assumes "builder_ok b" and "analyze ext context i b = Some (Inr b')"
  shows "\<exists>items a. closure context (states b ! i) = Some (Inr items) \<and>
     analyze_items context items = Inr a \<and>
     (\<forall>t its. (t, its) \<in> set (shift_items a) \<longrightarrow>
        (\<exists>s n. State_init context its = Inr s \<and>
           action_row (states b' ! i) (Some t) = Some (int n) \<and> 0 \<le> int n \<and>
           n < length (states b') \<and> key (states b' ! n) = key s \<and>
           state_id (states b' ! n) = Some n)) \<and>
     (\<forall>t pi. reduce_prods a t = Some pi \<longrightarrow>
        pi < length (ctx_prods context) \<and>
        action_row (states b' ! i) t =
          Some (if is_init_nt (p_nt (ctx_prods context ! pi)) then ACCEPT ext
                else - int pi - 1)) \<and>
     (\<forall>t. t \<notin> Some ` fst ` set (shift_items a) \<and> reduce_prods a t = None \<longrightarrow>
        action_row (states b' ! i) t = None)"
proof -
  from assms(2) obtain items a shift_row b1 row ctn b2 where
    i: "i < length (states b)"
    and c: "closure context (states b ! i) = Some (Inr items)"
    and a: "analyze_items context items = Inr a"
    and s: "fold_result (shift_entry ext context) (shift_items a) (Map.empty, b) =
        Inr (shift_row, b1)"
    and r: "reduce_entries ext context (reduce_prods a) shift_row = Inr row"
    and n: "fold_result (ctn_entry ext context) (ctn_items a) ([], b1) = Inr (ctn, b2)"
    and b': "b' = b2\<lparr>states := (states b2)
        [i := (states b2 ! i)\<lparr>action_row := row, ctn_row := ctn\<rparr>]\<rparr>"
    by (rule analyze_parts)
  from shift_fold_ok [OF assms(1) s analyze_items_shift_distinct [OF a]]
  have 1: "builder_ok b1" "builder_extends b b1"
    and others: "\<forall>x. x \<notin> Some ` fst ` set (shift_items a) \<longrightarrow> shift_row x = None"
    and shifts: "\<forall>t its. (t, its) \<in> set (shift_items a) \<longrightarrow>
        (\<exists>n. shift_row (Some t) = Some (int n) \<and> shift_target context b1 its n)"
    by simp_all
  from ctn_fold_ok [OF 1(1) n] have 2: "builder_ok b2" "builder_extends b1 b2" by simp_all
  from store_rows_ok [OF 2(1) b'] have 3: "builder_ok b'" "builder_extends b2 b'" by simp_all
  from 2(2) 3(2) have e: "builder_extends b1 b'" by (rule builder_extends_trans)
  from i 1(2) 2(2) have "i < length (states b2)" by (simp add: builder_extends_def)
  with b' have row: "action_row (states b' ! i) = row" by simp
  note red = reduce_entries_row [OF r]
  have sh: "\<exists>s n. State_init context its = Inr s \<and>
           action_row (states b' ! i) (Some t) = Some (int n) \<and> 0 \<le> int n \<and>
           n < length (states b') \<and> key (states b' ! n) = key s \<and>
           state_id (states b' ! n) = Some n" if "(t, its) \<in> set (shift_items a)" for t its
  proof -
    from shifts that obtain m where m: "shift_row (Some t) = Some (int m)"
      "shift_target context b1 its m" by blast
    have "reduce_prods a (Some t) = None"
    proof (rule ccontr)
      assume "reduce_prods a (Some t) \<noteq> None"
      then obtain pi where "reduce_prods a (Some t) = Some pi" by blast
      with red have "shift_row (Some t) = None" by blast
      with m(1) show False by simp
    qed
    with red m(1) have "row (Some t) = Some (int m)" by simp
    moreover from shift_target_extends [OF m(2) e 3(1)]
    have "shift_target context b' its m" .
    ultimately show ?thesis unfolding row shift_target_def by auto
  qed
  have rd: "pi < length (ctx_prods context) \<and>
        action_row (states b' ! i) t =
          Some (if is_init_nt (p_nt (ctx_prods context ! pi)) then ACCEPT ext
                else - int pi - 1)" if "reduce_prods a t = Some pi" for t pi
    using red that unfolding row reduce_code_def by blast
  have no: "action_row (states b' ! i) t = None"
    if "t \<notin> Some ` fst ` set (shift_items a) \<and> reduce_prods a t = None" for t
    using red others that unfolding row by simp
  from c a sh rd no show ?thesis by blast
qed


definition table_example_accept :: State where
  "table_example_accept =
     \<lparr>lr_items = [\<lparr>prod_index = 2, offset = 1, lookahead = None, followed_by = {END}\<rparr>],
      key = {#(2, 1, None)#}, action_row = Map.empty, ctn_row = [], state_id = Some 1\<rparr>"

definition table_example_builder :: builder where
  "table_example_builder =
     \<lparr>states = [table_example_state, table_example_accept],
      states_by_key = [{#(0, 1, None), (1, 1, None)#} \<mapsto> 0, {#(2, 1, None)#} \<mapsto> 1],
      todo = []\<rparr>"

lemma table_example_builder_ok: "builder_ok table_example_builder"
  by (auto simp add: builder_ok_def table_example_builder_def table_example_state_def
      table_example_accept_def less_Suc_eq split: if_splits)

lemma table_example_accept_closure:
  "closure table_example_context table_example_accept =
     Some (Inr [\<lparr>prod_index = 2, offset = 1, lookahead = None, followed_by = {END}\<rparr>])"
  by (simp add: closure_def closure_loop.simps closure_item_def nth_result_def
      table_example_context_def table_example_accept_def ordered_set_def os_add_def)

lemma table_example_accept_analysis:
  "analyze_items table_example_context
     [\<lparr>prod_index = 2, offset = 1, lookahead = None, followed_by = {END}\<rparr>] =
     Inr \<lparr>shift_items = [], ctn_items = [], reduce_prods = [END \<mapsto> 2]\<rparr>"
  by (auto simp add: analyze_items_def analyze_item_def nth_result_def
      table_example_context_def fun_eq_iff)

lemma table_example_shift_state:
  "State_init table_example_context
     [\<lparr>prod_index = 1, offset = 2, lookahead = None, followed_by = {END}\<rparr>] =
     Inr \<lparr>lr_items = [\<lparr>prod_index = 1, offset = 2, lookahead = None, followed_by = {END}\<rparr>],
          key = {#(1, 2, None)#}, action_row = Map.empty, ctn_row = [], state_id = None\<rparr>"
  by (simp add: State_init_def state_key_def table_example_context_def
      consolidate_def item_key_def item_of_def ordered_set_def os_add_def
      assert_items_are_compatible_def item_history_def nth_result_def last_slice_def)

lemma table_example_analyze_0:
  "\<exists>b'. analyze example_externals table_example_context 0 table_example_builder =
     Some (Inr b')"
proof -
  have s: "states table_example_builder ! 0 = table_example_state"
    by (simp add: table_example_builder_def)
  have l: "nth_result (states table_example_builder) 0 = Inr table_example_state"
    by (simp add: nth_result_def table_example_builder_def)
  have g: "fold_result (shift_entry example_externals table_example_context)
      [(''b'', [\<lparr>prod_index = 1, offset = 2, lookahead = None, followed_by = {END}\<rparr>])]
      (Map.empty, table_example_builder) =
      Inr ([Some ''b'' \<mapsto> 2],
        \<lparr>states = [table_example_state, table_example_accept,
            \<lparr>lr_items = [\<lparr>prod_index = 1, offset = 2, lookahead = None,
                            followed_by = {END}\<rparr>],
              key = {#(1, 2, None)#}, action_row = Map.empty, ctn_row = [],
              state_id = Some 2\<rparr>],
          states_by_key = [{#(0, 1, None), (1, 1, None)#} \<mapsto> 0, {#(2, 1, None)#} \<mapsto> 1,
            {#(1, 2, None)#} \<mapsto> 2],
          todo = [2]\<rparr>)"
    by (simp add: shift_entry_def table_example_shift_state get_state_index_def
        table_example_builder_def Let_def del: One_nat_def) (simp add: numeral_2_eq_2)
  have r: "\<exists>row. reduce_entries example_externals table_example_context [END \<mapsto> 0]
      [Some ''b'' \<mapsto> 2] = Inr row"
    by (simp add: reduce_entries_def table_example_context_def END_def)
  then obtain row where "reduce_entries example_externals table_example_context [END \<mapsto> 0]
      [Some ''b'' \<mapsto> 2] = Inr row" ..
  then show ?thesis
    by (simp only: analyze_def l sum.case option.case table_example_closure
        table_example_analysis analysis.select_convs g prod.case) simp
qed

lemma table_example_analyze_1:
  "\<exists>b'. analyze example_externals table_example_context 1 table_example_builder =
     Some (Inr b')"
proof -
  have l: "nth_result (states table_example_builder) 1 = Inr table_example_accept"
    by (simp add: nth_result_def table_example_builder_def)
  have r: "\<exists>row. reduce_entries example_externals table_example_context [END \<mapsto> 2]
      Map.empty = Inr row"
    by (simp add: reduce_entries_def table_example_context_def)
  then obtain row where "reduce_entries example_externals table_example_context [END \<mapsto> 2]
      Map.empty = Inr row" ..
  then show ?thesis
    by (simp only: analyze_def l sum.case option.case table_example_accept_closure
        table_example_accept_analysis analysis.select_convs fold_result.simps prod.case) simp
qed


theorem action_row_encoding_witness:
  "builder_ok table_example_builder \<and>
   (\<exists>b'. analyze example_externals table_example_context 0 table_example_builder =
        Some (Inr b') \<and>
      action_row (states b' ! 0) END = Some (- 1) \<and>
      (\<exists>n. action_row (states b' ! 0) (Some ''b'') = Some (int n) \<and>
         n < length (states b') \<and> state_id (states b' ! n) = Some n \<and>
         key (states b' ! n) = {#(1, 2, None)#})) \<and>
   (\<exists>b'. analyze example_externals table_example_context 1 table_example_builder =
        Some (Inr b') \<and>
      action_row (states b' ! 1) END = Some (ACCEPT example_externals))"
proof -
  have first: "\<exists>b'. analyze example_externals table_example_context 0 table_example_builder =
        Some (Inr b') \<and>
      action_row (states b' ! 0) END = Some (- 1) \<and>
      (\<exists>n. action_row (states b' ! 0) (Some ''b'') = Some (int n) \<and>
         n < length (states b') \<and> state_id (states b' ! n) = Some n \<and>
         key (states b' ! n) = {#(1, 2, None)#})"
  proof -
    from table_example_analyze_0 obtain b0 where
      a0: "analyze example_externals table_example_context 0 table_example_builder =
        Some (Inr b0)" ..
    from action_row_encoding [OF table_example_builder_ok a0] obtain items a where
      c: "closure table_example_context (states table_example_builder ! 0) = Some (Inr items)"
      and an: "analyze_items table_example_context items = Inr a"
      and sh: "\<forall>t its. (t, its) \<in> set (shift_items a) \<longrightarrow>
        (\<exists>s n. State_init table_example_context its = Inr s \<and>
           action_row (states b0 ! 0) (Some t) = Some (int n) \<and> 0 \<le> int n \<and>
           n < length (states b0) \<and> key (states b0 ! n) = key s \<and>
           state_id (states b0 ! n) = Some n)"
      and rd: "\<forall>t pi. reduce_prods a t = Some pi \<longrightarrow>
        pi < length (ctx_prods table_example_context) \<and>
        action_row (states b0 ! 0) t =
          Some (if is_init_nt (p_nt (ctx_prods table_example_context ! pi))
                then ACCEPT example_externals else - int pi - 1)"
      by blast
    have st: "states table_example_builder ! 0 = table_example_state"
      by (simp add: table_example_builder_def)
    from c have items: "items =
        [\<lparr>prod_index = 0, offset = 1, lookahead = None, followed_by = {END}\<rparr>,
         \<lparr>prod_index = 1, offset = 1, lookahead = None, followed_by = {END}\<rparr>]"
      unfolding st table_example_closure by simp
    from an have a: "a = \<lparr>shift_items = [(''b'', [\<lparr>prod_index = 1, offset = 2,
        lookahead = None, followed_by = {END}\<rparr>])],
          ctn_items = [], reduce_prods = [END \<mapsto> 0]\<rparr>"
      unfolding items table_example_analysis by simp
    have "reduce_prods a END = Some 0" by (simp add: a)
    with rd have "action_row (states b0 ! 0) END =
          Some (if is_init_nt (p_nt (ctx_prods table_example_context ! 0))
                then ACCEPT example_externals else - int 0 - 1)" by blast
    then have e: "action_row (states b0 ! 0) END = Some (- 1)"
      by (simp add: table_example_context_def is_init_nt_def)
    have "(''b'', [\<lparr>prod_index = 1, offset = 2, lookahead = None, followed_by = {END}\<rparr>])
        \<in> set (shift_items a)" by (simp add: a)
    with sh obtain s n where
      s: "State_init table_example_context
          [\<lparr>prod_index = 1, offset = 2, lookahead = None, followed_by = {END}\<rparr>] = Inr s"
      and n: "action_row (states b0 ! 0) (Some ''b'') = Some (int n)"
        "n < length (states b0)" "key (states b0 ! n) = key s"
        "state_id (states b0 ! n) = Some n"
      by blast
    from s have "key s = {#(1, 2, None)#}"
      unfolding table_example_shift_state by auto
    with n have "\<exists>n. action_row (states b0 ! 0) (Some ''b'') = Some (int n) \<and>
         n < length (states b0) \<and> state_id (states b0 ! n) = Some n \<and>
         key (states b0 ! n) = {#(1, 2, None)#}" by auto
    with a0 e show ?thesis by blast
  qed
  have second: "\<exists>b'. analyze example_externals table_example_context 1 table_example_builder =
        Some (Inr b') \<and>
      action_row (states b' ! 1) END = Some (ACCEPT example_externals)"
  proof -
    from table_example_analyze_1 obtain b1 where
      a1: "analyze example_externals table_example_context 1 table_example_builder =
        Some (Inr b1)" ..
    from action_row_encoding [OF table_example_builder_ok a1] obtain items a where
      c: "closure table_example_context (states table_example_builder ! 1) = Some (Inr items)"
      and an: "analyze_items table_example_context items = Inr a"
      and rd: "\<forall>t pi. reduce_prods a t = Some pi \<longrightarrow>
        pi < length (ctx_prods table_example_context) \<and>
        action_row (states b1 ! 1) t =
          Some (if is_init_nt (p_nt (ctx_prods table_example_context ! pi))
                then ACCEPT example_externals else - int pi - 1)"
      by blast
    have st: "states table_example_builder ! 1 = table_example_accept"
      by (simp add: table_example_builder_def)
    from c have items: "items =
        [\<lparr>prod_index = 2, offset = 1, lookahead = None, followed_by = {END}\<rparr>]"
      unfolding st table_example_accept_closure by simp
    from an have a: "a = \<lparr>shift_items = [], ctn_items = [], reduce_prods = [END \<mapsto> 2]\<rparr>"
      unfolding items table_example_accept_analysis by simp
    have "reduce_prods a END = Some 2" by (simp add: a)
    with rd have "action_row (states b1 ! 1) END =
          Some (if is_init_nt (p_nt (ctx_prods table_example_context ! 2))
                then ACCEPT example_externals else - int 2 - 1)" by blast
    then have "action_row (states b1 ! 1) END = Some (ACCEPT example_externals)"
      by (simp add: table_example_context_def is_init_nt_def)
    with a1 show ?thesis by blast
  qed
  from table_example_builder_ok first second show ?thesis by (intro conjI)
qed

subsection \<open>What the loop of analyze_states keeps true\<close>

text \<open>
  The items of every state in \<open>states\<close> have their offset within the right-hand side of
  their production, and the ids and keys of the states are as \<open>builder_ok\<close> has them:
  both hold of the states that \<open>analyze_states\<close> returns, and of every builder that
  \<open>State.analyze\<close> is run on.
\<close>

definition states_in_range :: "PgenContext \<Rightarrow> builder \<Rightarrow> bool" where
  "states_in_range context b \<longleftrightarrow>
     (\<forall>s \<in> set (states b). \<forall>k \<in> set (lr_items s). item_in_range context k)"

lemma item_in_range_key:
  "item_key x = item_key y \<Longrightarrow> item_in_range context x = item_in_range context y"
  by (simp add: item_key_def item_in_range_def)

lemma State_init_in_range:
  assumes "State_init context items = Inr s"
    and "\<forall>k \<in> set items. item_in_range context k"
  shows "\<forall>k \<in> set (lr_items s). item_in_range context k"
proof
  fix k assume "k \<in> set (lr_items s)"
  then obtain x where x: "x \<in> set items" "k = item_of (item_key x, merged_follow items (item_key x))"
    unfolding State_init_set [OF assms(1)] by blast
  then have "item_key k = item_key x" by simp
  from item_in_range_key [OF this] assms(2) x(1) show "item_in_range context k" by simp
qed

lemma update_in_range:
  assumes "update self new_state = Inr (changed, s')"
    and "\<forall>k \<in> set (lr_items self). item_in_range context k"
  shows "\<forall>k \<in> set (lr_items s'). item_in_range context k"
proof (cases "s' = self")
  case True
  with assms(2) show ?thesis by simp
next
  case False
  with assms(1) obtain merged where
    m: "map_result
          (\<lambda>item. case new_followed_by new_state (item_key item) of
                     None \<Rightarrow> Inl KeyError
                   | Some fb \<Rightarrow> Inr (item\<lparr>followed_by := followed_by item \<union> fb\<rparr>))
          (lr_items self) = Inr merged"
    and s': "lr_items s' = ordered_set merged"
    by (auto simp add: update_def split: if_splits sum.splits bool.splits)
  show ?thesis
  proof
    fix k assume "k \<in> set (lr_items s')"
    with s' have "k \<in> set merged" by simp
    then obtain i where i: "i < length merged" "k = merged ! i"
      by (auto simp add: in_set_conv_nth)
    from m [unfolded map_result_Inr] i have l: "i < length (lr_items self)"
      and "(case new_followed_by new_state (item_key (lr_items self ! i)) of
              None \<Rightarrow> Inl KeyError
            | Some fb \<Rightarrow> Inr ((lr_items self ! i)\<lparr>followed_by :=
                followed_by (lr_items self ! i) \<union> fb\<rparr>)) = Inr k"
      by simp_all
    then have "item_key k = item_key (lr_items self ! i)"
      by (auto simp add: item_key_def split: option.splits)
    from item_in_range_key [OF this] assms(2) l show "item_in_range context k" by simp
  qed
qed

lemma get_state_index_in_range:
  assumes "states_in_range context b"
    and "\<forall>k \<in> set (lr_items s). item_in_range context k"
    and "get_state_index s b = Inr (n, b')"
  shows "states_in_range context b'"
proof (cases "states_by_key b (key s)")
  case None
  with assms(3) have "states b' = states b @ [s\<lparr>state_id := Some n\<rparr>]"
    by (auto simp add: get_state_index_def Let_def)
  with assms(1,2) show ?thesis by (auto simp add: states_in_range_def)
next
  case (Some i)
  with assms(3) obtain changed st' where i: "i < length (states b)"
    and u: "update (states b ! i) s = Inr (changed, st')"
    and b': "states b' = (states b)[i := st']"
    by (auto simp add: get_state_index_def nth_result_def
        split: sum.splits if_splits option.splits)
  from i have "states b ! i \<in> set (states b)" by simp
  with assms(1) have "\<forall>k \<in> set (lr_items (states b ! i)). item_in_range context k"
    unfolding states_in_range_def by blast
  from update_in_range [OF u this] have "\<forall>k \<in> set (lr_items st'). item_in_range context k" .
  with assms(1) b' show ?thesis
    unfolding states_in_range_def by (auto dest: set_update_subset_insert [THEN subsetD])
qed


definition targets_in_range :: "PgenContext \<Rightarrow> ('k \<times> LRItem list) list \<Rightarrow> bool" where
  "targets_in_range context d \<longleftrightarrow>
     (\<forall>kv \<in> set d. \<forall>x \<in> set (snd kv). item_in_range context x)"

lemma dict_add_in_range:
  "targets_in_range context d \<Longrightarrow> item_in_range context v \<Longrightarrow>
     targets_in_range context (dict_add k v d)"
proof (induction d)
  case Nil
  then show ?case by (simp add: targets_in_range_def)
next
  case (Cons p d)
  obtain k' vs where p: "p = (k', vs)" by (cases p)
  from Cons.prems(1) have d: "targets_in_range context d"
    and vs: "\<forall>x \<in> set vs. item_in_range context x"
    by (simp_all add: targets_in_range_def p)
  show ?case
  proof (cases "k' = k")
    case True
    with p d vs Cons.prems(2) show ?thesis
      by (simp add: targets_in_range_def os_add_props)
  next
    case False
    with p vs Cons.IH [OF d Cons.prems(2)] show ?thesis
      by (simp add: targets_in_range_def)
  qed
qed

lemma analyze_item_in_range:
  assumes "analyze_item context item a = Inr a'"
    and "targets_in_range context (shift_items a) \<and> targets_in_range context (ctn_items a)"
  shows "targets_in_range context (shift_items a') \<and> targets_in_range context (ctn_items a')"
proof (cases "prod_index item < length (ctx_prods context) \<and>
    offset item < length (p_rhs (ctx_prods context ! prod_index item))")
  case False
  with assms(1) have "shift_items a' = shift_items a \<and> ctn_items a' = ctn_items a"
    by (auto simp add: analyze_item_def nth_result_def Let_def split: if_splits)
  with assms(2) show ?thesis by simp
next
  case True
  show ?thesis
  proof (cases "shift_items a' = shift_items a \<and> ctn_items a' = ctn_items a")
    case True
    with assms(2) show ?thesis by simp
  next
    case False
    with assms(1) True have "\<exists>next_item.
        make_lr_item context (prod_index item) (offset item + 1) None (followed_by item) =
          Inr next_item \<and>
        ((\<exists>t. shift_items a' = dict_add t next_item (shift_items a) \<and>
                 ctn_items a' = ctn_items a) \<or>
         (\<exists>m. ctn_items a' = dict_add m next_item (ctn_items a) \<and>
                 shift_items a' = shift_items a))"
      by (auto simp add: analyze_item_def nth_result_def
          split: element.splits sum.splits if_splits)
    then obtain next_item where
      n: "make_lr_item context (prod_index item) (offset item + 1) None (followed_by item) =
          Inr next_item"
      and r: "(\<exists>t. shift_items a' = dict_add t next_item (shift_items a) \<and>
                 ctn_items a' = ctn_items a) \<or>
              (\<exists>m. ctn_items a' = dict_add m next_item (ctn_items a) \<and>
                 shift_items a' = shift_items a)"
      by blast
    from True have "offset item + 1 \<le> length (p_rhs (ctx_prods context ! prod_index item))"
      by simp
    from make_lr_item_in_range [OF n this] have "item_in_range context next_item" .
    with r assms(2) show ?thesis by (auto simp add: dict_add_in_range)
  qed
qed

lemma analyze_items_in_range:
  assumes "analyze_items context items = Inr a"
  shows "targets_in_range context (shift_items a) \<and> targets_in_range context (ctn_items a)"
proof (rule fold_result_inv [OF assms [unfolded analyze_items_def],
        where P = "\<lambda>a. targets_in_range context (shift_items a) \<and>
          targets_in_range context (ctn_items a)"])
  show "targets_in_range context
      (shift_items \<lparr>shift_items = [], ctn_items = [], reduce_prods = Map.empty\<rparr>) \<and>
    targets_in_range context
      (ctn_items \<lparr>shift_items = [], ctn_items = [], reduce_prods = Map.empty\<rparr>)"
    by (simp add: targets_in_range_def)
next
  fix x a a'
  assume "targets_in_range context (shift_items a) \<and> targets_in_range context (ctn_items a)"
    and "analyze_item context x a = Inr a'"
  then show "targets_in_range context (shift_items a') \<and>
      targets_in_range context (ctn_items a')"
    by (rule analyze_item_in_range [rotated])
qed

lemma shift_fold_in_range:
  assumes "states_in_range context b" and "targets_in_range context xs"
    and "fold_result (shift_entry ext context) xs (row, b) = Inr (row', b')"
  shows "states_in_range context b'"
proof -
  have "case (row', b') of (r1, b1) \<Rightarrow> states_in_range context b1"
  proof (rule fold_result_inv [OF assms(3)])
    from assms(1) show "case (row, b) of (r1, b1) \<Rightarrow> states_in_range context b1" by simp
  next
    fix x p p'
    assume x: "x \<in> set xs" and p: "case p of (r1, b1) \<Rightarrow> states_in_range context b1"
      and c: "shift_entry ext context x p = Inr p'"
    obtain t its r1 b1 r2 b2 where s: "x = (t, its)" "p = (r1, b1)" "p' = (r2, b2)"
      by (cases x, cases p, cases p')
    from c s obtain st n where st: "State_init context its = Inr st"
      and g: "get_state_index st b1 = Inr (n, b2)"
      by (auto simp add: shift_entry_def split: sum.splits)
    from assms(2) x s have "\<forall>k \<in> set its. item_in_range context k"
      by (auto simp add: targets_in_range_def)
    from State_init_in_range [OF st this] p s g
    show "case p' of (r1, b1) \<Rightarrow> states_in_range context b1"
      by (auto intro: get_state_index_in_range)
  qed
  then show ?thesis by simp
qed

lemma ctn_fold_in_range:
  assumes "states_in_range context b" and "targets_in_range context xs"
    and "fold_result (ctn_entry ext context) xs (row, b) = Inr (row', b')"
  shows "states_in_range context b'"
proof -
  have "case (row', b') of (r1, b1) \<Rightarrow> states_in_range context b1"
  proof (rule fold_result_inv [OF assms(3)])
    from assms(1) show "case (row, b) of (r1, b1) \<Rightarrow> states_in_range context b1" by simp
  next
    fix x p p'
    assume x: "x \<in> set xs" and p: "case p of (r1, b1) \<Rightarrow> states_in_range context b1"
      and c: "ctn_entry ext context x p = Inr p'"
    obtain t its r1 b1 r2 b2 where s: "x = (t, its)" "p = (r1, b1)" "p' = (r2, b2)"
      by (cases x, cases p, cases p')
    from c s obtain st n where st: "State_init context its = Inr st"
      and g: "get_state_index st b1 = Inr (n, b2)"
      by (auto simp add: ctn_entry_def split: sum.splits)
    from assms(2) x s have "\<forall>k \<in> set its. item_in_range context k"
      by (auto simp add: targets_in_range_def)
    from State_init_in_range [OF st this] p s g
    show "case p' of (r1, b1) \<Rightarrow> states_in_range context b1"
      by (auto intro: get_state_index_in_range)
  qed
  then show ?thesis by simp
qed

lemma analyze_in_range:
  assumes "states_in_range context b" and "analyze ext context i b = Some (Inr b')"
  shows "states_in_range context b'"
proof -
  from assms(2) obtain items a shift_row b1 row ctn b2 where
    a: "analyze_items context items = Inr a"
    and s: "fold_result (shift_entry ext context) (shift_items a) (Map.empty, b) =
        Inr (shift_row, b1)"
    and n: "fold_result (ctn_entry ext context) (ctn_items a) ([], b1) = Inr (ctn, b2)"
    and b': "b' = b2\<lparr>states := (states b2)
        [i := (states b2 ! i)\<lparr>action_row := row, ctn_row := ctn\<rparr>]\<rparr>"
    by (rule analyze_parts)
  note t = analyze_items_in_range [OF a]
  from shift_fold_in_range [OF assms(1) t [THEN conjunct1] s]
  have "states_in_range context b1" .
  from ctn_fold_in_range [OF this t [THEN conjunct2] n]
  have 2: "states_in_range context b2" .
  show ?thesis
    unfolding states_in_range_def
  proof (intro ballI)
    fix st k assume st: "st \<in> set (states b')" and k: "k \<in> set (lr_items st)"
    from st b' have "st \<in> insert ((states b2 ! i)\<lparr>action_row := row, ctn_row := ctn\<rparr>)
        (set (states b2))"
      using set_update_subset_insert [of "states b2" i] by auto
    then show "item_in_range context k"
    proof
      assume e: "st = (states b2 ! i)\<lparr>action_row := row, ctn_row := ctn\<rparr>"
      show ?thesis
      proof (cases "i < length (states b2)")
        case True
        then have "states b2 ! i \<in> set (states b2)" by simp
        with 2 e k show ?thesis by (auto simp add: states_in_range_def)
      next
        case False
        with b' have "states b' = states b2" by (simp add: list_update_beyond)
        with st 2 k show ?thesis by (auto simp add: states_in_range_def)
      qed
    next
      assume "st \<in> set (states b2)"
      with 2 k show ?thesis by (auto simp add: states_in_range_def)
    qed
  qed
qed

lemma init_state_invariants:
  assumes "builder_ok b" and "states_in_range context b"
    and "init_state ext context goal (m, b) = Inr (m', b')"
  shows "builder_ok b' \<and> states_in_range context b'"
proof -
  from assms(3) obtain idx start_item s i where
    mk: "make_lr_item context idx 0 None {END} = Inr start_item"
    and st: "State_init context [start_item] = Inr s"
    and g: "get_state_index s b = Inr (i, b')"
    by (auto simp add: init_state_def split: sum.splits)
  from make_lr_item_in_range [OF mk] have "\<forall>k \<in> set [start_item]. item_in_range context k"
    by simp
  note r = State_init_in_range [OF st this]
  from get_state_index_ok [OF assms(1) g] get_state_index_in_range [OF assms(2) r g]
  show ?thesis by simp
qed

lemma analyze_loop_invariants:
  assumes "analyze_loop ext context b = Some (Inr b')"
    and "builder_ok b" and "states_in_range context b"
  shows "builder_ok b' \<and> states_in_range context b'"
proof -
  define P where "P = (\<lambda>(e :: externals) ctx bb (r :: error + builder).
      builder_ok bb \<and> states_in_range ctx bb \<longrightarrow>
      (\<forall>bb'. r = Inr bb' \<longrightarrow> builder_ok bb' \<and> states_in_range ctx bb'))"
  have "P ext context b (Inr b')"
  proof (rule analyze_loop.raw_induct [where P = P, OF _ assms(1)])
    fix f e ctx bb r
    assume IH: "\<And>e' ctx' bb' r'. f e' ctx' bb' = Some r' \<Longrightarrow> P e' ctx' bb' r'"
      and body: "(case todo bb of [] \<Rightarrow> Some (Inr bb)
          | i # rest \<Rightarrow>
              (case analyze e ctx i (bb\<lparr>todo := rest\<rparr>) of
                 None \<Rightarrow> None
               | Some (Inl err) \<Rightarrow> Some (Inl err)
               | Some (Inr b2) \<Rightarrow> f e ctx b2)) = Some r"
    show "P e ctx bb r"
    proof (cases "todo bb")
      case Nil
      with body show ?thesis by (auto simp add: P_def)
    next
      case (Cons i rest)
      show ?thesis
      proof (cases "analyze e ctx i (bb\<lparr>todo := rest\<rparr>)")
        case None
        with body Cons show ?thesis by simp
      next
        case (Some res)
        show ?thesis
        proof (cases res)
          case (Inl err)
          with body Cons Some show ?thesis by (auto simp add: P_def)
        next
          case (Inr b2)
          with body Cons Some have loop: "f e ctx b2 = Some r" by simp
          from Some Inr have an: "analyze e ctx i (bb\<lparr>todo := rest\<rparr>) = Some (Inr b2)" by simp
          show ?thesis
            unfolding P_def
          proof (intro impI)
            assume inv: "builder_ok bb \<and> states_in_range ctx bb"
            then have "builder_ok (bb\<lparr>todo := rest\<rparr>)" "states_in_range ctx (bb\<lparr>todo := rest\<rparr>)"
              by (simp_all add: builder_ok_def states_in_range_def)
            from analyze_builder_ok [OF this(1) an] analyze_in_range [OF this(2) an]
            have "builder_ok b2 \<and> states_in_range ctx b2" by simp
            with IH [OF loop] show "\<forall>bb'. r = Inr bb' \<longrightarrow>
                builder_ok bb' \<and> states_in_range ctx bb'"
              unfolding P_def by blast
          qed
        qed
      qed
    qed
  qed
  with assms(2,3) show ?thesis unfolding P_def by blast
qed


lemma analyze_states_invariants:
  assumes "analyze_states ext context = Some (Inr (sts, init_state_map))"
  shows "(\<forall>s \<in> set sts. \<forall>k \<in> set (lr_items s). item_in_range context k) \<and>
     (\<forall>j < length sts. state_id (sts ! j) = Some j)"
proof -
  let ?b0 = "\<lparr>states = [], states_by_key = Map.empty, todo = []\<rparr>"
  from assms obtain m b b' where
    f: "fold_result (init_state ext context) (init_nts (ctx_grammar context)) ([], ?b0) =
        Inr (m, b)"
    and l: "analyze_loop ext context b = Some (Inr b')" and sts: "sts = states b'"
    by (auto simp add: analyze_states_def split: sum.splits option.splits)
  have "case (m, b) of (m1, b1) \<Rightarrow> builder_ok b1 \<and> states_in_range context b1"
  proof (rule fold_result_inv [OF f])
    show "case ([], ?b0) of (m1, b1) \<Rightarrow> builder_ok b1 \<and> states_in_range context b1"
      by (simp add: builder_ok_def states_in_range_def)
  next
    fix goal p p'
    assume p: "case p of (m1, b1) \<Rightarrow> builder_ok b1 \<and> states_in_range context b1"
      and i: "init_state ext context goal p = Inr p'"
    obtain m1 b1 m2 b2 where s: "p = (m1, b1)" "p' = (m2, b2)" by (cases p, cases p')
    from p s have "builder_ok b1" "states_in_range context b1" by simp_all
    from init_state_invariants [OF this i [unfolded s]] s
    show "case p' of (m1, b1) \<Rightarrow> builder_ok b1 \<and> states_in_range context b1" by simp
  qed
  then have "builder_ok b" "states_in_range context b" by simp_all
  from analyze_loop_invariants [OF l this] sts show ?thesis
    by (simp add: builder_ok_def states_in_range_def)
qed

end
